theory Spec2Isabelle
  imports Main "HOL-Library.Word" "HOL-Library.Sublist"
begin

section \<open>TestKit: the test tree, outcome aggregation, the scope stack and the reporter\<close>

text \<open>
  A shallow embedding of \<^verbatim>\<open>TestKit.hpp\<close>. Every function below carries the name of
  the C++ function (or macro) it embeds and follows its branches in the source's order.
  A failing \<^verbatim>\<open>assert\<close>, a \<^verbatim>\<open>top()\<close> of an empty stack and the exceptions of
  \<^verbatim>\<open>std::string::substr\<close> and of the constructor of \<^verbatim>\<open>std::string\<close> are values of the
  type \<open>error\<close>; a function that can reach one of them returns \<open>error + 'a\<close>.
\<close>

subsection \<open>Constants\<close>

definition CHECK_MARK :: string where
  "CHECK_MARK = [CHR 0xE2, CHR 0x9C, CHR 0x93]"

definition CROSS_MARK :: string where
  "CROSS_MARK = [CHR 0xE2, CHR 0x9C, CHR 0x98]"

definition CIRCLE_SYM :: string where
  "CIRCLE_SYM = [CHR 0xE2, CHR 0x97, CHR 0x8B]"

definition ANSI_RESET :: string where
  "ANSI_RESET = CHR 0x1B # ''[0m''"

definition ANSI_GRAY :: string where
  "ANSI_GRAY = CHR 0x1B # ''[38;5;246m''"

definition ANSI_GREEN :: string where
  "ANSI_GREEN = CHR 0x1B # ''[38;5;42m''"

definition ANSI_RED :: string where
  "ANSI_RED = CHR 0x1B # ''[38;5;196m''"

definition ANSI_DARK_GREEN :: string where
  "ANSI_DARK_GREEN = CHR 0x1B # ''[38;5;28m''"

definition ANSI_DARK_RED :: string where
  "ANSI_DARK_RED = CHR 0x1B # ''[38;5;160m''"

definition ANSI_ITALIC :: string where
  "ANSI_ITALIC = CHR 0x1B # ''[3m''"

subsection \<open>Data model\<close>

text \<open>
  \<^verbatim>\<open>enum class Outcome { None, Failed, Passed }\<close>. The first constructor is suffixed,
  since \<open>None\<close> is the constructor of \<open>option\<close>.
\<close>

datatype Outcome = None_Outcome | Failed | Passed

text \<open>
  What stops the program: the \<^verbatim>\<open>assert\<close> of \<^verbatim>\<open>Segment::Check\<close>, the \<^verbatim>\<open>assert\<close> of the
  destructor of \<^verbatim>\<open>SegmentScopeManager\<close>, \<^verbatim>\<open>top()\<close> of an empty stack, the use of a
  pointer that points to nothing, and the exceptions \<^verbatim>\<open>std::out_of_range\<close> and
  \<^verbatim>\<open>std::length_error\<close>.
\<close>

datatype error =
    Check_assert_failed
  | Destructor_assert_failed
  | EmptyStackTop
  | DanglingPointer
  | OutOfRange
  | LengthError

record Options =
  detailDepth :: int

text \<open>What the code reads of a \<^verbatim>\<open>std::source_location\<close>: the file name and the line.\<close>

record source_location =
  file_name :: string
  line :: nat

record Task =
  m_name :: string
  m_source :: source_location
  m_outcome :: Outcome

text \<open>
  A \<^verbatim>\<open>Node*\<close> of \<^verbatim>\<open>m_nodes\<close> points either to a Task of \<^verbatim>\<open>m_tasks\<close> or to a
  Segment of \<^verbatim>\<open>m_segments\<close>, each of which is pointed to by exactly one entry of
  \<^verbatim>\<open>m_nodes\<close> (\<^verbatim>\<open>AddTask\<close> and \<^verbatim>\<open>AddSegment\<close> push the object and its address
  together). The model therefore keeps one ordered list, \<open>m_nodes\<close>, that holds the
  objects themselves; the two kinds of \<^verbatim>\<open>dynamic_cast\<close> are the two constructors.
\<close>

datatype 'segment Node = TaskNode Task | SegmentNode 'segment

datatype Segment =
  Segment (m_name_Segment: string) (m_nodes: "Segment Node list") (m_didFail: bool)

subsection \<open>Task\<close>

text \<open>\<^verbatim>\<open>Task::Build( name, source )\<close>: a task that did not run.\<close>

definition Build_Task :: "string \<Rightarrow> source_location \<Rightarrow> Task" where
  "Build_Task name source = \<lparr>m_name = name, m_source = source, m_outcome = None_Outcome\<rparr>"

text \<open>\<^verbatim>\<open>Task::Build( name, source, result )\<close>.\<close>

definition Build_Task_result :: "string \<Rightarrow> source_location \<Rightarrow> bool \<Rightarrow> Task" where
  "Build_Task_result name source result =
     (Build_Task name source)\<lparr>m_outcome := (if result then Passed else Failed)\<rparr>"

definition Check_Task :: "Task \<Rightarrow> Outcome" where
  "Check_Task t = m_outcome t"

subsection \<open>Segment\<close>

definition Build_Segment :: "string \<Rightarrow> Segment" where
  "Build_Segment name = Segment name [] False"

text \<open>
  \<^verbatim>\<open>AddSegment\<close> overwrites the failed flag of the copy with the one of the receiver and
  appends it. The pointer it returns is the position of the new child in \<open>m_nodes\<close>.
\<close>

definition AddSegment :: "Segment \<Rightarrow> Segment \<Rightarrow> Segment \<times> nat" where
  "AddSegment this segment =
     (Segment (m_name_Segment this)
        (m_nodes this @
           [SegmentNode (Segment (m_name_Segment segment) (m_nodes segment) (m_didFail this))])
        (m_didFail this),
      length (m_nodes this))"

definition AddTask :: "Segment \<Rightarrow> Task \<Rightarrow> Segment" where
  "AddTask this task =
     Segment (m_name_Segment this) (m_nodes this @ [TaskNode task]) (m_didFail this)"

definition MarkFailed :: "Segment \<Rightarrow> Segment" where
  "MarkFailed this = Segment (m_name_Segment this) (m_nodes this) True"

definition DidFail :: "Segment \<Rightarrow> bool" where
  "DidFail this = m_didFail this"

text \<open>
  \<^verbatim>\<open>Segment::Check\<close>. \<open>Check_loop\<close> is the \<^verbatim>\<open>for\<close> loop with its two flags; its first
  equation is the code after the loop, where the \<^verbatim>\<open>assert\<close> is a branch of its own.
\<close>

function Check_Segment :: "Segment \<Rightarrow> error + Outcome"
  and Check_loop :: "Segment Node list \<Rightarrow> bool \<Rightarrow> bool \<Rightarrow> error + Outcome"
where
  "Check_Segment (Segment name nodes didFail) =
     (if length nodes = 0 then Inr None_Outcome else Check_loop nodes True True)"
| "Check_loop [] allPassed allAreNone =
     (if allPassed then Inr Passed
      else if allAreNone then Inr None_Outcome
      else if \<not> (\<not> allPassed \<and> \<not> allAreNone) then Inl Check_assert_failed
      else Inr Failed)"
| "Check_loop (TaskNode t # rest) allPassed allAreNone =
     (let outcome = Check_Task t in
      if outcome = Failed then Inr Failed
      else Check_loop rest (if outcome \<noteq> Passed then False else allPassed)
                           (if outcome \<noteq> None_Outcome then False else allAreNone))"
| "Check_loop (SegmentNode s # rest) allPassed allAreNone =
     (case Check_Segment s of
        Inl e \<Rightarrow> Inl e
      | Inr outcome \<Rightarrow>
          if outcome = Failed then Inr Failed
          else Check_loop rest (if outcome \<noteq> Passed then False else allPassed)
                               (if outcome \<noteq> None_Outcome then False else allAreNone))"
  by pat_completeness auto
termination
  by (relation "measure (\<lambda>x. case x of
          Inl s \<Rightarrow> size s
        | Inr (nodes, _, _) \<Rightarrow> size_list (size_Node size) nodes)") auto

text \<open>\<^verbatim>\<open>node->Check()\<close>, the virtual call.\<close>

definition Check_Node :: "Segment Node \<Rightarrow> error + Outcome" where
  "Check_Node node = (case node of TaskNode t \<Rightarrow> Inr (Check_Task t) | SegmentNode s \<Rightarrow> Check_Segment s)"

subsection \<open>Report generator\<close>

text \<open>
  \<^verbatim>\<open>std::format( "{}", n )\<close> of an unsigned line number: its decimal digits.
\<close>

function format_decimal :: "nat \<Rightarrow> string" where
  "format_decimal n =
     (if n < 10 then [''0123456789'' ! n]
      else format_decimal (n div 10) @ [''0123456789'' ! (n mod 10)])"
  by pat_completeness auto
termination
  by (relation "measure id") auto

declare format_decimal.simps [simp del]

text \<open>
  \<^verbatim>\<open>std::string( depth * 2, ' ' )\<close>, the indentation of both \<^verbatim>\<open>Stringify\<close> functions, for
  a depth that is not negative. The product is computed in a 32-bit \<^verbatim>\<open>int\<close>: from
  \<open>depth = 2 ^ 30\<close> on it is beyond \<^verbatim>\<open>INT_MAX\<close> and wraps to a negative number, which as
  the unsigned count of the constructor is beyond \<^verbatim>\<open>max_size()\<close>, so that the constructor
  throws \<^verbatim>\<open>std::length_error\<close>.
\<close>

definition indent :: "int \<Rightarrow> error + string" where
  "indent depth =
     (if 2147483647 < depth * 2 then Inl LengthError
      else Inr (replicate (nat (depth * 2)) CHR '' ''))"

text \<open>
  \<^verbatim>\<open>Stringify( const Task*, int )\<close>. The pointer is never null here (the only caller
  passes an element of \<open>m_nodes\<close>), so the null test has no branch.
\<close>

definition Stringify_Task :: "Task \<Rightarrow> int \<Rightarrow> error + string" where
  "Stringify_Task task depth =
     (if depth < 0 then Inr []
      else
        case indent depth of
          Inl e \<Rightarrow> Inl e
        | Inr out \<Rightarrow>
            let outcome = Check_Task task;
                out = (if outcome = Passed then out @ ANSI_GREEN @ CHECK_MARK
                       else if outcome = None_Outcome then out @ ANSI_GRAY @ CIRCLE_SYM
                       else out @ ANSI_RED @ CROSS_MARK);
                out = out @ '' '' @ m_name task;
                out = (if outcome = Failed
                       then out @ '' ( at file: '' @ file_name (m_source task) @ '', line: ''
                                @ format_decimal (line (m_source task)) @ '' )''
                       else out)
            in Inr (out @ ANSI_RESET))"

text \<open>
  \<^verbatim>\<open>Stringify( const Segment*, int )\<close>, with the global options as a parameter. Its
  pointer is the root or an element of \<open>m_nodes\<close>, never null, and an element of \<open>m_nodes\<close>
  is a segment or a task, so the branch of the failed casts has no counterpart.
  \<open>Stringify_loop\<close> is the \<^verbatim>\<open>for\<close> loop over \<open>m_nodes\<close>, threading \<open>out\<close>.
  \<^verbatim>\<open>(uint16_t) detailDepth\<close> is the conversion to a 16-bit word, read back unsigned for
  the comparison with the \<^verbatim>\<open>int\<close> depth.
\<close>

function Stringify_Segment :: "Options \<Rightarrow> Segment \<Rightarrow> int \<Rightarrow> error + string"
  and Stringify_loop :: "Options \<Rightarrow> Segment Node list \<Rightarrow> int \<Rightarrow> string \<Rightarrow> error + string"
where
  "Stringify_Segment opts (Segment name nodes didFail) depth =
     (case (if depth < 0 then Inr [] else indent depth) of
        Inl e \<Rightarrow> Inl e
      | Inr out \<Rightarrow>
         (case Check_Segment (Segment name nodes didFail) of
            Inl e \<Rightarrow> Inl e
          | Inr outcome \<Rightarrow>
              let out = (if outcome = None_Outcome then out @ ANSI_GRAY else out);
                  out = out @ name
              in
              if outcome \<noteq> None_Outcome then
                let out = out @ '':'';
                    out = (if outcome = Passed
                           then out @ ANSI_ITALIC @ ANSI_DARK_GREEN @ '' [all tests passed]''
                           else if outcome = Failed
                           then out @ ANSI_ITALIC @ ANSI_DARK_RED @ '' [some tests failed]''
                           else out);
                    out = out @ ANSI_RESET;
                    out = (if depth < 0 then [] else out)
                in
                if depth < uint (word_of_int (detailDepth opts) :: 16 word) \<or> outcome = Failed
                then (case Stringify_loop opts nodes depth out of
                        Inl e \<Rightarrow> Inl e
                      | Inr out \<Rightarrow> Inr (out @ ANSI_RESET))
                else Inr (out @ ANSI_RESET)
              else Inr (out @ ANSI_RESET)))"
| "Stringify_loop opts [] depth out = Inr out"
| "Stringify_loop opts (SegmentNode subSegment # rest) depth out =
     (let out = (if \<not> suffix [CHR 0x0A] out then out @ [CHR 0x0A] else out) in
      case Stringify_Segment opts subSegment (depth + 1) of
        Inl e \<Rightarrow> Inl e
      | Inr sub \<Rightarrow> Stringify_loop opts rest depth (out @ [CHR 0x0A] @ sub @ [CHR 0x0A]))"
| "Stringify_loop opts (TaskNode subTask # rest) depth out =
     (case Stringify_Task subTask (depth + 1) of
        Inl e \<Rightarrow> Inl e
      | Inr sub \<Rightarrow> Stringify_loop opts rest depth (out @ [CHR 0x0A] @ sub))"
  by pat_completeness auto
termination
  by (relation "measure (\<lambda>x. case x of
          Inl (_, s, _) \<Rightarrow> size s
        | Inr (_, nodes, _, _) \<Rightarrow> size_list (size_Node size) nodes)") auto

text \<open>
  \<^verbatim>\<open>std::string::find_first_not_of\<close> (\<open>None\<close> is \<^verbatim>\<open>npos\<close>) and the one-argument
  \<^verbatim>\<open>std::string::substr\<close>, which throws when the position is beyond the size.
\<close>

fun find_first_not_of :: "string \<Rightarrow> string \<Rightarrow> nat option" where
  "find_first_not_of [] chars = None"
| "find_first_not_of (c # s) chars =
     (if c \<notin> set chars then Some 0 else map_option Suc (find_first_not_of s chars))"

definition substr :: "string \<Rightarrow> nat option \<Rightarrow> error + string" where
  "substr s pos =
     (case pos of
        None \<Rightarrow> Inl OutOfRange
      | Some p \<Rightarrow> if p > length s then Inl OutOfRange else Inr (drop p s))"

subsection \<open>The root, the scope stack and the options\<close>

text \<open>
  A \<^verbatim>\<open>Segment*\<close> is modelled by the position of the segment in the tree: the list of
  indices into \<open>m_nodes\<close> that leads from the root to it (\<open>[]\<close> is \<^verbatim>\<open>&__internal_root\<close>).
  Elements of a \<^verbatim>\<open>std::list\<close> never move and nodes are only ever appended, so a position
  names the same object until \<^verbatim>\<open>Reset\<close> clears the tree. \<open>deref\<close> reads through such a
  pointer (\<open>None\<close>: it points to nothing), \<open>modify\<close> writes through it.
\<close>

type_synonym Segment_ptr = "nat list"

fun deref :: "Segment_ptr \<Rightarrow> Segment \<Rightarrow> Segment option" where
  "deref [] root = Some root"
| "deref (i # p) root =
     (if i < length (m_nodes root)
      then (case m_nodes root ! i of SegmentNode s \<Rightarrow> deref p s | TaskNode t \<Rightarrow> None)
      else None)"

fun modify :: "(Segment \<Rightarrow> Segment) \<Rightarrow> Segment_ptr \<Rightarrow> Segment \<Rightarrow> Segment" where
  "modify f [] root = f root"
| "modify f (i # p) root =
     (if i < length (m_nodes root)
      then (case m_nodes root ! i of
              SegmentNode s \<Rightarrow>
                Segment (m_name_Segment root)
                  ((m_nodes root)[i := SegmentNode (modify f p s)]) (m_didFail root)
            | TaskNode t \<Rightarrow> root)
      else root)"

text \<open>The stack \<^verbatim>\<open>__internal_segment_stack\<close> is a list with its top at the head.\<close>

record state =
  internal_root :: Segment
  internal_segment_stack :: "Segment_ptr list"
  internal_curr_options :: Options

definition initial_state :: state where
  "initial_state =
     \<lparr>internal_root = Build_Segment [],
      internal_segment_stack = [[]],
      internal_curr_options = \<lparr>detailDepth = - 1\<rparr>\<rparr>"

definition SetNewOptions :: "Options \<Rightarrow> state \<Rightarrow> state" where
  "SetNewOptions newOptions s = s\<lparr>internal_curr_options := newOptions\<rparr>"

text \<open>\<^verbatim>\<open>__internal_segment_stack.top()\<close> followed by a use of the pointer.\<close>

definition top_segment :: "state \<Rightarrow> error + (Segment_ptr \<times> Segment)" where
  "top_segment s =
     (case internal_segment_stack s of
        [] \<Rightarrow> Inl EmptyStackTop
      | top_ptr # _ \<Rightarrow>
          (case deref top_ptr (internal_root s) of
             None \<Rightarrow> Inl DanglingPointer
           | Some seg \<Rightarrow> Inr (top_ptr, seg)))"

text \<open>The constructor and the destructor of \<^verbatim>\<open>SegmentScopeManager\<close>.\<close>

definition SegmentScopeManager :: "string \<Rightarrow> state \<Rightarrow> error + state" where
  "SegmentScopeManager name s =
     (case top_segment s of
        Inl e \<Rightarrow> Inl e
      | Inr (top_ptr, seg) \<Rightarrow>
          let (seg', i) = AddSegment seg (Build_Segment name);
              newSegment = top_ptr @ [i]
          in Inr (s\<lparr>internal_root := modify (\<lambda>_. seg') top_ptr (internal_root s),
                    internal_segment_stack := newSegment # internal_segment_stack s\<rparr>))"

definition SegmentScopeManager_destructor :: "state \<Rightarrow> error + state" where
  "SegmentScopeManager_destructor s =
     (if \<not> length (internal_segment_stack s) > 1 then Inl Destructor_assert_failed
      else Inr (s\<lparr>internal_segment_stack := tl (internal_segment_stack s)\<rparr>))"

text \<open>
  The bodies of the macros \<^verbatim>\<open>__INTERNAL_TK_REQUIRE_2\<close> and \<^verbatim>\<open>__INTERNAL_TK_CHECK_2\<close> as
  functions of the segment \<^verbatim>\<open>top\<close> points to; the message, the source location and the
  value of the condition are parameters.
\<close>

definition REQUIRE_2_body :: "string \<Rightarrow> source_location \<Rightarrow> bool \<Rightarrow> Segment \<Rightarrow> Segment" where
  "REQUIRE_2_body msg loc condition top_seg =
     (if DidFail top_seg then AddTask top_seg (Build_Task msg loc)
      else
        let c = condition;
            top_seg = (if \<not> c then MarkFailed top_seg else top_seg)
        in AddTask top_seg (Build_Task_result msg loc c))"

definition CHECK_2_body :: "string \<Rightarrow> source_location \<Rightarrow> bool \<Rightarrow> Segment \<Rightarrow> Segment" where
  "CHECK_2_body msg loc condition top_seg =
     (if DidFail top_seg then AddTask top_seg (Build_Task msg loc)
      else AddTask top_seg (Build_Task_result msg loc condition))"

definition REQUIRE_2 :: "string \<Rightarrow> source_location \<Rightarrow> bool \<Rightarrow> state \<Rightarrow> error + state" where
  "REQUIRE_2 msg loc condition s =
     (case top_segment s of
        Inl e \<Rightarrow> Inl e
      | Inr (top_ptr, seg) \<Rightarrow>
          Inr (s\<lparr>internal_root := modify (REQUIRE_2_body msg loc condition) top_ptr (internal_root s)\<rparr>))"

definition CHECK_2 :: "string \<Rightarrow> source_location \<Rightarrow> bool \<Rightarrow> state \<Rightarrow> error + state" where
  "CHECK_2 msg loc condition s =
     (case top_segment s of
        Inl e \<Rightarrow> Inl e
      | Inr (top_ptr, seg) \<Rightarrow>
          Inr (s\<lparr>internal_root := modify (CHECK_2_body msg loc condition) top_ptr (internal_root s)\<rparr>))"

text \<open>\<^verbatim>\<open>Reset\<close>; \<open>pop_all\<close> is its \<^verbatim>\<open>while\<close> loop.\<close>

fun pop_all :: "Segment_ptr list \<Rightarrow> Segment_ptr list" where
  "pop_all [] = []"
| "pop_all (p # stack) = pop_all stack"

definition Reset :: "state \<Rightarrow> state" where
  "Reset s =
     s\<lparr>internal_root := Segment (m_name_Segment (internal_root s)) [] False,
       internal_segment_stack := [] # pop_all (internal_segment_stack s)\<rparr>"

definition GenerateReport :: "state \<Rightarrow> error + string" where
  "GenerateReport s =
     (case Stringify_Segment (internal_curr_options s) (internal_root s) (- 1) of
        Inl e \<Rightarrow> Inl e
      | Inr report \<Rightarrow> substr report (find_first_not_of report [CHR 0x0A]))"

subsection \<open>Sequences of calls\<close>

text \<open>
  The calls a user of the header makes, one after the other, and the state they leave.
  A failed assertion or a use of the empty stack ends the program, and with it the
  sequence. \<^verbatim>\<open>GenerateReport\<close> writes nothing: an exception it throws leaves the state as it
  is, and the calls of a caller that catches it go on from there.
\<close>

datatype api_call =
    Enter_SECTION string
  | Leave_SECTION
  | REQUIRE string source_location bool
  | CHECK string source_location bool
  | Call_GenerateReport
  | Call_SetNewOptions Options
  | Call_Reset

fun step :: "api_call \<Rightarrow> state \<Rightarrow> error + state" where
  "step (Enter_SECTION name) s = SegmentScopeManager name s"
| "step Leave_SECTION s = SegmentScopeManager_destructor s"
| "step (REQUIRE msg loc c) s = REQUIRE_2 msg loc c s"
| "step (CHECK msg loc c) s = CHECK_2 msg loc c s"
| "step Call_GenerateReport s =
     (case GenerateReport s of
        Inl e \<Rightarrow> if e = Check_assert_failed then Inl e else Inr s
      | Inr report \<Rightarrow> Inr s)"
| "step (Call_SetNewOptions newOptions) s = Inr (SetNewOptions newOptions s)"
| "step Call_Reset s = Inr (Reset s)"

fun run :: "api_call list \<Rightarrow> state \<Rightarrow> error + state" where
  "run [] s = Inr s"
| "run (c # cs) s = (case step c s of Inl e \<Rightarrow> Inl e | Inr s' \<Rightarrow> run cs s')"

subsection \<open>Predicates of the properties\<close>

text \<open>
  \<open>keeps seg seg'\<close>: what a segment never loses while the tree is not reset. A failed flag
  that is set stays set, and a task that was recorded stays recorded.
\<close>

definition keeps :: "Segment \<Rightarrow> Segment \<Rightarrow> bool" where
  "keeps seg seg' =
     ((m_didFail seg \<longrightarrow> m_didFail seg') \<and>
      (\<forall>n \<in> set (m_nodes seg).
         case n of TaskNode t \<Rightarrow> n \<in> set (m_nodes seg') | SegmentNode sub \<Rightarrow> True))"

text \<open>
  The invariant of the scope stack: it is not empty, its bottom is the root, and every
  entry points to a segment of the tree.
\<close>

definition stack_invariant :: "state \<Rightarrow> bool" where
  "stack_invariant s =
     (internal_segment_stack s \<noteq> [] \<and>
      last (internal_segment_stack s) = [] \<and>
      list_all (\<lambda>p. deref p (internal_root s) \<noteq> None) (internal_segment_stack s))"

text \<open>
  \<open>well_nested d calls\<close>: with \<open>d\<close> scopes open, the calls leave only scopes that are open
  (every destructor run belongs to a constructor run before it), and \<^verbatim>\<open>Reset\<close> is called
  only while no scope is open. \<open>open_scopes d calls\<close> is the number of scopes open after
  the calls.
\<close>

fun well_nested :: "nat \<Rightarrow> api_call list \<Rightarrow> bool" where
  "well_nested d [] = True"
| "well_nested d (Enter_SECTION name # calls) = well_nested (Suc d) calls"
| "well_nested d (Leave_SECTION # calls) = (0 < d \<and> well_nested (d - 1) calls)"
| "well_nested d (Call_Reset # calls) = (d = 0 \<and> well_nested 0 calls)"
| "well_nested d (c # calls) = well_nested d calls"

fun open_scopes :: "nat \<Rightarrow> api_call list \<Rightarrow> nat" where
  "open_scopes d [] = d"
| "open_scopes d (Enter_SECTION name # calls) = open_scopes (Suc d) calls"
| "open_scopes d (Leave_SECTION # calls) = open_scopes (d - 1) calls"
| "open_scopes d (c # calls) = open_scopes d calls"

text \<open>
  The line of a segment itself, as \<^verbatim>\<open>Stringify( const Segment*, int )\<close> has built it when
  it turns to the children: gray and without annotation for a segment that did not run,
  empty at a depth below 0 otherwise, and else the indented name with its annotation.
\<close>

definition segment_line :: "string \<Rightarrow> Outcome \<Rightarrow> int \<Rightarrow> string" where
  "segment_line name outcome depth =
     (if outcome = None_Outcome
      then (if depth < 0 then [] else replicate (nat (depth * 2)) CHR '' '') @ ANSI_GRAY @ name
      else if depth < 0 then []
      else replicate (nat (depth * 2)) CHR '' '' @ name @ '':'' @
           (if outcome = Passed then ANSI_ITALIC @ ANSI_DARK_GREEN @ '' [all tests passed]''
            else ANSI_ITALIC @ ANSI_DARK_RED @ '' [some tests failed]'') @
           ANSI_RESET)"

text \<open>
  \<open>child_block opts depth node piece\<close>: \<open>piece\<close> is what the loop of the reporter appends
  for the child \<open>node\<close> of a segment at \<open>depth\<close>: a line break and the task rendered at
  \<open>depth + 1\<close>, or one or two line breaks, the sub-segment rendered at \<open>depth + 1\<close> and a line
  break.
\<close>

definition child_block :: "Options \<Rightarrow> int \<Rightarrow> Segment Node \<Rightarrow> string \<Rightarrow> bool" where
  "child_block opts depth node piece =
     (case node of
        TaskNode t \<Rightarrow>
          (case Stringify_Task t (depth + 1) of
             Inl e \<Rightarrow> False
           | Inr r \<Rightarrow> piece = [CHR 0x0A] @ r)
      | SegmentNode sub \<Rightarrow>
          (case Stringify_Segment opts sub (depth + 1) of
             Inl e \<Rightarrow> False
           | Inr r \<Rightarrow> piece = [CHR 0x0A] @ r @ [CHR 0x0A] \<or>
                      piece = [CHR 0x0A, CHR 0x0A] @ r @ [CHR 0x0A]))"

text \<open>
  The number of levels of a segment: 1 for a segment without sub-segments. When a segment
  is rendered at \<open>depth\<close>, the segments below it are rendered at depths up to
  \<open>depth + height - 1\<close> and the tasks below it at depths up to \<open>depth + height\<close>.
\<close>

fun height :: "Segment \<Rightarrow> nat" where
  "height (Segment name nodes didFail) =
     Suc (Max (set (0 # map (\<lambda>n. case n of TaskNode t \<Rightarrow> 0 | SegmentNode sub \<Rightarrow> height sub) nodes)))"

text \<open>The number a string of decimal digits stands for.\<close>

definition decimal_value :: "string \<Rightarrow> nat" where
  "decimal_value digits = foldl (\<lambda>value c. 10 * value + (of_char c - 48)) 0 digits"

section \<open>Properties\<close>

subsection \<open>Outcome aggregation\<close>

lemma Check_loop_Cons:
  "Check_loop (n # rest) allPassed allAreNone =
     (case Check_Node n of
        Inl e \<Rightarrow> Inl e
      | Inr outcome \<Rightarrow>
          if outcome = Failed then Inr Failed
          else Check_loop rest (allPassed \<and> outcome = Passed) (allAreNone \<and> outcome = None_Outcome))"
  by (cases n) (auto simp: Check_Node_def Let_def split: sum.splits)

lemma Check_loop_total:
  assumes "\<forall>n \<in> set nodes. \<exists>outcome. Check_Node n = Inr outcome"
  shows "\<exists>outcome. Check_loop nodes allPassed allAreNone = Inr outcome"
  using assms
proof (induction nodes arbitrary: allPassed allAreNone)
  case Nil
  show ?case by simp
next
  case (Cons n rest)
  from Cons.prems obtain oc where oc: "Check_Node n = Inr oc" by auto
  from Cons.prems have "\<forall>n \<in> set rest. \<exists>outcome. Check_Node n = Inr outcome" by simp
  from Cons.IH [OF this] show ?case
    by (simp add: Check_loop_Cons oc)
qed

lemma Check_Segment_total: "\<exists>outcome. Check_Segment s = Inr outcome"
proof (induction s)
  case (Segment name nodes didFail)
  have "\<forall>n \<in> set nodes. \<exists>outcome. Check_Node n = Inr outcome"
  proof
    fix n assume n: "n \<in> set nodes"
    show "\<exists>outcome. Check_Node n = Inr outcome"
    proof (cases n)
      case (TaskNode t)
      then show ?thesis by (simp add: Check_Node_def)
    next
      case (SegmentNode c)
      with n Segment.IH [of n c] show ?thesis by (simp add: Check_Node_def)
    qed
  qed
  from Check_loop_total [OF this] show ?case by simp
qed

lemma Check_Node_total: "\<exists>outcome. Check_Node n = Inr outcome"
  by (cases n) (simp_all add: Check_Node_def Check_Segment_total)

lemma Check_Segment_loop:
  "Check_Segment s = (if m_nodes s = [] then Inr None_Outcome else Check_loop (m_nodes s) True True)"
  by (cases s) simp

lemma Check_loop_Failed:
  "\<exists>n \<in> set nodes. Check_Node n = Inr Failed \<Longrightarrow> Check_loop nodes allPassed allAreNone = Inr Failed"
proof (induction nodes arbitrary: allPassed allAreNone)
  case Nil
  then show ?case by simp
next
  case (Cons n rest)
  obtain oc where oc: "Check_Node n = Inr oc" using Check_Node_total by blast
  show ?case
  proof (cases "oc = Failed")
    case True
    with oc show ?thesis by (simp add: Check_loop_Cons)
  next
    case False
    with oc Cons.prems have "\<exists>n \<in> set rest. Check_Node n = Inr Failed" by auto
    from Cons.IH [OF this] False oc show ?thesis by (simp add: Check_loop_Cons)
  qed
qed

lemma Check_loop_no_Failed:
  "\<forall>n \<in> set nodes. Check_Node n \<noteq> Inr Failed \<Longrightarrow>
   Check_loop nodes allPassed allAreNone =
     (if allPassed \<and> (\<forall>n \<in> set nodes. Check_Node n = Inr Passed) then Inr Passed
      else if allAreNone \<and> (\<forall>n \<in> set nodes. Check_Node n = Inr None_Outcome) then Inr None_Outcome
      else Inr Failed)"
proof (induction nodes arbitrary: allPassed allAreNone)
  case Nil
  then show ?case by simp
next
  case (Cons n rest)
  obtain oc where oc: "Check_Node n = Inr oc" using Check_Node_total by blast
  from Cons.prems oc have nf: "oc \<noteq> Failed" by auto
  from Cons.prems have "\<forall>n \<in> set rest. Check_Node n \<noteq> Inr Failed" by simp
  from Cons.IH [OF this] oc nf show ?case
    by (cases oc) (auto simp: Check_loop_Cons)
qed

text \<open>
  C1. \<^verbatim>\<open>Segment::Check\<close> aggregates the outcomes of the children, case by case in the
  order of the code: a segment with no children is \<open>None\<close> (not run); a segment with a
  child whose check is \<open>Failed\<close> is \<open>Failed\<close>; a segment that has children, all of them
  \<open>Passed\<close>, is \<open>Passed\<close> (the case of no children is the first one); a segment all of
  whose children are \<open>None\<close> is \<open>None\<close>. The first conjunct is the whole computation, with
  the remaining case (children \<open>Passed\<close> and \<open>None\<close>, none \<open>Failed\<close>) giving \<open>Failed\<close>.
\<close>

theorem Check_Segment_aggregate:
  "Check_Segment s =
     Inr (if m_nodes s = [] then None_Outcome
          else if \<exists>n \<in> set (m_nodes s). Check_Node n = Inr Failed then Failed
          else if \<forall>n \<in> set (m_nodes s). Check_Node n = Inr Passed then Passed
          else if \<forall>n \<in> set (m_nodes s). Check_Node n = Inr None_Outcome then None_Outcome
          else Failed) \<and>
   (m_nodes s = [] \<longrightarrow> Check_Segment s = Inr None_Outcome) \<and>
   ((\<exists>n \<in> set (m_nodes s). Check_Node n = Inr Failed) \<longrightarrow> Check_Segment s = Inr Failed) \<and>
   (m_nodes s \<noteq> [] \<and> (\<forall>n \<in> set (m_nodes s). Check_Node n = Inr Passed)
      \<longrightarrow> Check_Segment s = Inr Passed) \<and>
   ((\<forall>n \<in> set (m_nodes s). Check_Node n = Inr None_Outcome)
      \<longrightarrow> Check_Segment s = Inr None_Outcome)"
proof (intro conjI impI)
  show "Check_Segment s =
     Inr (if m_nodes s = [] then None_Outcome
          else if \<exists>n \<in> set (m_nodes s). Check_Node n = Inr Failed then Failed
          else if \<forall>n \<in> set (m_nodes s). Check_Node n = Inr Passed then Passed
          else if \<forall>n \<in> set (m_nodes s). Check_Node n = Inr None_Outcome then None_Outcome
          else Failed)"
  proof (cases "\<exists>n \<in> set (m_nodes s). Check_Node n = Inr Failed")
    case True
    then have "m_nodes s \<noteq> []" by auto
    with Check_loop_Failed [OF True] True show ?thesis by (simp add: Check_Segment_loop)
  next
    case False
    then have "\<forall>n \<in> set (m_nodes s). Check_Node n \<noteq> Inr Failed" by simp
    from Check_loop_no_Failed [OF this, of True True] False show ?thesis
      by (simp add: Check_Segment_loop)
  qed
next
  assume "m_nodes s = []"
  then show "Check_Segment s = Inr None_Outcome" by (simp add: Check_Segment_loop)
next
  assume f: "\<exists>n \<in> set (m_nodes s). Check_Node n = Inr Failed"
  then have "m_nodes s \<noteq> []" by auto
  with Check_loop_Failed [OF f] show "Check_Segment s = Inr Failed"
    by (simp add: Check_Segment_loop)
next
  assume p: "m_nodes s \<noteq> [] \<and> (\<forall>n \<in> set (m_nodes s). Check_Node n = Inr Passed)"
  then have "\<forall>n \<in> set (m_nodes s). Check_Node n \<noteq> Inr Failed" by simp
  from Check_loop_no_Failed [OF this, of True True] p show "Check_Segment s = Inr Passed"
    by (simp add: Check_Segment_loop)
next
  assume a: "\<forall>n \<in> set (m_nodes s). Check_Node n = Inr None_Outcome"
  then have nf: "\<forall>n \<in> set (m_nodes s). Check_Node n \<noteq> Inr Failed" by simp
  show "Check_Segment s = Inr None_Outcome"
  proof (cases "m_nodes s")
    case Nil
    then show ?thesis by (simp add: Check_Segment_loop)
  next
    case (Cons n rest)
    with a have "Check_Node n = Inr None_Outcome" by simp
    with Check_loop_no_Failed [OF nf, of True True] a Cons show ?thesis
      by (auto simp: Check_Segment_loop)
  qed
qed

theorem Check_Segment_aggregate_witness:
  "m_nodes (Segment ''empty'' [] False) = [] \<and>
   Check_Segment (Segment ''empty'' [] False) = Inr None_Outcome \<and>
   (\<exists>n \<in> set (m_nodes (Segment ''f''
        [TaskNode (Build_Task_result ''a'' \<lparr>file_name = ''t.cpp'', line = 3\<rparr> True),
         SegmentNode (Segment ''g''
           [TaskNode (Build_Task_result ''b'' \<lparr>file_name = ''t.cpp'', line = 5\<rparr> False)] True)]
        False)). Check_Node n = Inr Failed) \<and>
   Check_Segment (Segment ''f''
        [TaskNode (Build_Task_result ''a'' \<lparr>file_name = ''t.cpp'', line = 3\<rparr> True),
         SegmentNode (Segment ''g''
           [TaskNode (Build_Task_result ''b'' \<lparr>file_name = ''t.cpp'', line = 5\<rparr> False)] True)]
        False) = Inr Failed \<and>
   map Check_Node (m_nodes (Segment ''p''
        [TaskNode (Build_Task_result ''a'' \<lparr>file_name = ''t.cpp'', line = 3\<rparr> True)] False))
     = [Inr Passed] \<and>
   Check_Segment (Segment ''p''
        [TaskNode (Build_Task_result ''a'' \<lparr>file_name = ''t.cpp'', line = 3\<rparr> True)] False)
     = Inr Passed \<and>
   map Check_Node (m_nodes (Segment ''n''
        [TaskNode (Build_Task ''a'' \<lparr>file_name = ''t.cpp'', line = 3\<rparr>)] True))
     = [Inr None_Outcome] \<and>
   Check_Segment (Segment ''n''
        [TaskNode (Build_Task ''a'' \<lparr>file_name = ''t.cpp'', line = 3\<rparr>)] True)
     = Inr None_Outcome"
proof -
  let ?loc = "\<lparr>file_name = ''t.cpp'', line = 3\<rparr>"
  let ?g = "Segment ''g''
           [TaskNode (Build_Task_result ''b'' \<lparr>file_name = ''t.cpp'', line = 5\<rparr> False)] True"
  let ?f = "Segment ''f'' [TaskNode (Build_Task_result ''a'' ?loc True), SegmentNode ?g] False"
  let ?p = "Segment ''p'' [TaskNode (Build_Task_result ''a'' ?loc True)] False"
  let ?n = "Segment ''n'' [TaskNode (Build_Task ''a'' ?loc)] True"
  have e: "m_nodes (Segment ''empty'' [] False) = []" by simp
  have f: "\<exists>n \<in> set (m_nodes ?f). Check_Node n = Inr Failed"
    by (simp add: Check_Node_def Check_Task_def Build_Task_result_def Build_Task_def)
  have p: "m_nodes ?p \<noteq> [] \<and> (\<forall>n \<in> set (m_nodes ?p). Check_Node n = Inr Passed)"
    by (simp add: Check_Node_def Check_Task_def Build_Task_result_def Build_Task_def)
  have n: "\<forall>n \<in> set (m_nodes ?n). Check_Node n = Inr None_Outcome"
    by (simp add: Check_Node_def Check_Task_def Build_Task_def)
  from e Check_Segment_aggregate [of "Segment ''empty'' [] False"]
  have 1: "Check_Segment (Segment ''empty'' [] False) = Inr None_Outcome" by blast
  from f Check_Segment_aggregate [of ?f] have 2: "Check_Segment ?f = Inr Failed" by blast
  from p Check_Segment_aggregate [of ?p] have 3: "Check_Segment ?p = Inr Passed" by blast
  from n Check_Segment_aggregate [of ?n] have 4: "Check_Segment ?n = Inr None_Outcome" by blast
  have p': "map Check_Node (m_nodes ?p) = [Inr Passed]"
    by (simp add: Check_Node_def Check_Task_def Build_Task_result_def Build_Task_def)
  have n': "map Check_Node (m_nodes ?n) = [Inr None_Outcome]"
    by (simp add: Check_Node_def Check_Task_def Build_Task_def)
  from e f p' n' 1 2 3 4 show ?thesis by blast
qed

subsection \<open>Reset\<close>

text \<open>
  C10. \<^verbatim>\<open>Reset\<close> leaves the global options as they are: the options read after it are
  the ones read before it, and a \<open>detailDepth\<close> installed by \<^verbatim>\<open>SetNewOptions\<close> is still
  the one in force after a \<^verbatim>\<open>Reset\<close>.
\<close>

theorem Reset_keeps_options:
  "internal_curr_options (Reset s) = internal_curr_options s \<and>
   detailDepth (internal_curr_options (Reset (SetNewOptions newOptions s))) = detailDepth newOptions"
  by (simp add: Reset_def SetNewOptions_def)

subsection \<open>Pointers into the tree\<close>

lemma deref_modify_same:
  "deref p root = Some seg \<Longrightarrow> deref p (modify f p root) = Some (f seg)"
proof (induction p arbitrary: root)
  case Nil
  then show ?case by simp
next
  case (Cons i p)
  then show ?case by (auto split: if_splits Node.splits)
qed

lemma deref_append:
  "deref (p @ q) root = (case deref p root of None \<Rightarrow> None | Some seg \<Rightarrow> deref q seg)"
  by (induction p arbitrary: root) (auto split: Node.splits)

lemma deref_modify_below:
  "deref p root = Some seg \<Longrightarrow> deref (p @ q) (modify f p root) = deref q (f seg)"
  by (simp add: deref_append deref_modify_same)

lemma modify_const:
  "deref p root = Some seg \<Longrightarrow> modify (\<lambda>_. g seg) p root = modify g p root"
proof (induction p arbitrary: root)
  case Nil
  then show ?case by simp
next
  case (Cons i p)
  then show ?case by (auto split: if_splits Node.splits)
qed

lemma m_name_modify:
  "(\<And>x. m_name_Segment (f x) = m_name_Segment x) \<Longrightarrow>
   m_name_Segment (modify f p root) = m_name_Segment root"
  by (cases p) (auto split: Node.splits)

lemma keeps_iff:
  "keeps seg seg' =
     ((m_didFail seg \<longrightarrow> m_didFail seg') \<and>
      (\<forall>t. TaskNode t \<in> set (m_nodes seg) \<longrightarrow> TaskNode t \<in> set (m_nodes seg')))"
proof -
  have "(\<forall>n \<in> set (m_nodes seg).
           case n of TaskNode t \<Rightarrow> n \<in> set (m_nodes seg') | SegmentNode sub \<Rightarrow> True) =
        (\<forall>t. TaskNode t \<in> set (m_nodes seg) \<longrightarrow> TaskNode t \<in> set (m_nodes seg'))"
  proof (intro iffI allI impI ballI)
    fix t
    assume "\<forall>n \<in> set (m_nodes seg).
           case n of TaskNode t \<Rightarrow> n \<in> set (m_nodes seg') | SegmentNode sub \<Rightarrow> True"
      and "TaskNode t \<in> set (m_nodes seg)"
    then show "TaskNode t \<in> set (m_nodes seg')" by force
  next
    fix n
    assume "\<forall>t. TaskNode t \<in> set (m_nodes seg) \<longrightarrow> TaskNode t \<in> set (m_nodes seg')"
      and "n \<in> set (m_nodes seg)"
    then show "case n of TaskNode t \<Rightarrow> n \<in> set (m_nodes seg') | SegmentNode sub \<Rightarrow> True"
      by (cases n) auto
  qed
  then show ?thesis by (simp add: keeps_def)
qed

lemma keeps_refl: "keeps seg seg"
  by (simp add: keeps_iff)

lemma keeps_trans: "keeps a b \<Longrightarrow> keeps b c \<Longrightarrow> keeps a c"
  by (simp add: keeps_iff)

lemma TaskNode_in_update:
  assumes "i < length nodes" "nodes ! i = SegmentNode c" "TaskNode t \<in> set nodes"
  shows "TaskNode t \<in> set (nodes[i := SegmentNode c'])"
proof -
  from assms(3) obtain k where k: "k < length nodes" "nodes ! k = TaskNode t"
    by (auto simp: in_set_conv_nth)
  with assms(2) have "k \<noteq> i" by auto
  with k have "nodes[i := SegmentNode c'] ! k = TaskNode t" by simp
  with k(1) show ?thesis by (metis length_list_update nth_mem)
qed

lemma keeps_modify_root:
  assumes f: "\<And>x. \<exists>ys. m_nodes (f x) = m_nodes x @ ys" "\<And>x. m_didFail x \<Longrightarrow> m_didFail (f x)"
  shows "keeps root (modify f p root)"
proof (cases p)
  case Nil
  from f(1) [of root] f(2) [of root] show ?thesis
    by (auto simp: Nil keeps_iff)
next
  case (Cons i p')
  then show ?thesis
    by (auto simp: keeps_iff TaskNode_in_update split: Node.splits)
qed

lemma deref_modify_keeps:
  assumes f: "\<And>x. \<exists>ys. m_nodes (f x) = m_nodes x @ ys" "\<And>x. m_didFail x \<Longrightarrow> m_didFail (f x)"
  shows "deref q root = Some seg \<Longrightarrow> \<exists>seg'. deref q (modify f p root) = Some seg' \<and> keeps seg seg'"
proof (induction q arbitrary: p root)
  case Nil
  then show ?case using keeps_modify_root [OF f] by simp
next
  case (Cons i q)
  from Cons.prems obtain c where i: "i < length (m_nodes root)"
    and c: "m_nodes root ! i = SegmentNode c" and d: "deref q c = Some seg"
    by (auto split: if_splits Node.splits)
  show ?case
  proof (cases p)
    case Nil
    from f(1) [of root] obtain ys where "m_nodes (f root) = m_nodes root @ ys" by blast
    with i c d show ?thesis by (auto simp: Nil nth_append keeps_refl)
  next
    case p: (Cons j p')
    show ?thesis
    proof (cases "j = i")
      case True
      from Cons.IH [OF d, of p'] obtain seg' where
        "deref q (modify f p' c) = Some seg'" "keeps seg seg'" by blast
      with i c True show ?thesis by (auto simp: p)
    next
      case False
      with i c d show ?thesis
        by (auto simp: p keeps_refl split: Node.splits)
    qed
  qed
qed

subsection \<open>Recording and scopes, step by step\<close>

lemma REQUIRE_2_body_nodes: "\<exists>ys. m_nodes (REQUIRE_2_body msg loc c x) = m_nodes x @ ys"
  by (simp add: REQUIRE_2_body_def AddTask_def MarkFailed_def Let_def)

lemma REQUIRE_2_body_flag: "m_didFail x \<Longrightarrow> m_didFail (REQUIRE_2_body msg loc c x)"
  by (simp add: REQUIRE_2_body_def AddTask_def MarkFailed_def Let_def)

lemma REQUIRE_2_body_name: "m_name_Segment (REQUIRE_2_body msg loc c x) = m_name_Segment x"
  by (simp add: REQUIRE_2_body_def AddTask_def MarkFailed_def Let_def)

lemma CHECK_2_body_nodes: "\<exists>ys. m_nodes (CHECK_2_body msg loc c x) = m_nodes x @ ys"
  by (simp add: CHECK_2_body_def AddTask_def)

lemma CHECK_2_body_flag: "m_didFail (CHECK_2_body msg loc c x) = m_didFail x"
  by (simp add: CHECK_2_body_def AddTask_def)

lemma CHECK_2_body_name: "m_name_Segment (CHECK_2_body msg loc c x) = m_name_Segment x"
  by (simp add: CHECK_2_body_def AddTask_def)

lemma top_segment_deref: "top_segment s = Inr (p, seg) \<Longrightarrow> deref p (internal_root s) = Some seg"
  by (auto simp: top_segment_def split: list.splits option.splits)

lemma SegmentScopeManager_eq:
  assumes "top_segment s = Inr (p, seg)"
  shows "SegmentScopeManager name s =
     Inr (s\<lparr>internal_root :=
              modify (\<lambda>x. fst (AddSegment x (Build_Segment name))) p (internal_root s),
            internal_segment_stack := (p @ [length (m_nodes seg)]) # internal_segment_stack s\<rparr>)"
proof -
  have "modify (\<lambda>_. fst (AddSegment seg (Build_Segment name))) p (internal_root s) =
        modify (\<lambda>x. fst (AddSegment x (Build_Segment name))) p (internal_root s)"
    by (rule modify_const [OF top_segment_deref [OF assms]])
  then show ?thesis
    using assms by (simp add: SegmentScopeManager_def AddSegment_def)
qed

lemma step_root:
  assumes "step c s = Inr s'" "c \<noteq> Call_Reset"
  shows "\<exists>f p. internal_root s' = modify f p (internal_root s) \<and>
           (\<forall>x. \<exists>ys. m_nodes (f x) = m_nodes x @ ys) \<and>
           (\<forall>x. m_didFail x \<longrightarrow> m_didFail (f x)) \<and>
           (\<forall>x. m_name_Segment (f x) = m_name_Segment x)"
proof -
  have id: "\<exists>f p. internal_root s = modify f p (internal_root s) \<and>
           (\<forall>x. \<exists>ys. m_nodes (f x) = m_nodes x @ ys) \<and>
           (\<forall>x. m_didFail x \<longrightarrow> m_didFail (f x)) \<and>
           (\<forall>x. m_name_Segment (f x) = m_name_Segment x)"
    by (rule exI [of _ "\<lambda>x. x"], rule exI [of _ "[]"]) simp
  show ?thesis
  proof (cases c)
    case (Enter_SECTION name)
    with assms obtain p seg where t: "top_segment s = Inr (p, seg)"
      by (auto simp: SegmentScopeManager_def split: sum.splits)
    let ?f = "\<lambda>x. fst (AddSegment x (Build_Segment name))"
    from assms Enter_SECTION SegmentScopeManager_eq [OF t, of name]
    have "internal_root s' = modify ?f p (internal_root s)" by auto
    moreover have "(\<forall>x. \<exists>ys. m_nodes (?f x) = m_nodes x @ ys) \<and>
           (\<forall>x. m_didFail x \<longrightarrow> m_didFail (?f x)) \<and>
           (\<forall>x. m_name_Segment (?f x) = m_name_Segment x)"
      by (simp add: AddSegment_def)
    ultimately show ?thesis by blast
  next
    case Leave_SECTION
    with assms have "internal_root s' = internal_root s"
      by (auto simp: SegmentScopeManager_destructor_def split: if_splits)
    with id show ?thesis by simp
  next
    case (REQUIRE msg loc b)
    with assms obtain p where
      "internal_root s' = modify (REQUIRE_2_body msg loc b) p (internal_root s)"
      by (auto simp: REQUIRE_2_def split: sum.splits)
    with REQUIRE_2_body_nodes REQUIRE_2_body_flag REQUIRE_2_body_name show ?thesis by blast
  next
    case (CHECK msg loc b)
    with assms obtain p where
      "internal_root s' = modify (CHECK_2_body msg loc b) p (internal_root s)"
      by (auto simp: CHECK_2_def split: sum.splits)
    moreover have "\<forall>x. m_didFail x \<longrightarrow> m_didFail (CHECK_2_body msg loc b x)"
      by (simp add: CHECK_2_body_flag)
    ultimately show ?thesis using CHECK_2_body_nodes CHECK_2_body_name by blast
  next
    case Call_GenerateReport
    with assms have "s' = s" by (auto split: sum.splits if_splits)
    with id show ?thesis by simp
  next
    case (Call_SetNewOptions newOptions)
    with assms have "internal_root s' = internal_root s" by (auto simp: SetNewOptions_def)
    with id show ?thesis by simp
  next
    case Call_Reset
    with assms show ?thesis by simp
  qed
qed

lemma step_keeps:
  assumes "step c s = Inr s'" "c \<noteq> Call_Reset" "deref q (internal_root s) = Some seg"
  shows "\<exists>seg'. deref q (internal_root s') = Some seg' \<and> keeps seg seg'"
proof -
  from step_root [OF assms(1,2)] obtain f p where
    r: "internal_root s' = modify f p (internal_root s)"
    and f: "\<And>x. \<exists>ys. m_nodes (f x) = m_nodes x @ ys" "\<And>x. m_didFail x \<Longrightarrow> m_didFail (f x)"
    by blast
  from deref_modify_keeps [of f, OF f assms(3)] r show ?thesis by simp
qed

lemma run_keeps:
  "Call_Reset \<notin> set calls \<Longrightarrow> run calls s = Inr s' \<Longrightarrow> deref q (internal_root s) = Some seg \<Longrightarrow>
   \<exists>seg'. deref q (internal_root s') = Some seg' \<and> keeps seg seg'"
proof (induction calls arbitrary: s seg)
  case Nil
  then show ?case by (auto simp: keeps_refl)
next
  case (Cons c calls)
  from Cons.prems obtain s1 where s1: "step c s = Inr s1" "run calls s1 = Inr s'"
    by (auto split: sum.splits)
  from Cons.prems have c: "c \<noteq> Call_Reset" "Call_Reset \<notin> set calls" by auto
  from step_keeps [OF s1(1) c(1) Cons.prems(3)] obtain seg1 where
    seg1: "deref q (internal_root s1) = Some seg1" "keeps seg seg1" by blast
  from Cons.IH [OF c(2) s1(2) seg1(1)] obtain seg' where
    "deref q (internal_root s') = Some seg'" "keeps seg1 seg'" by blast
  with seg1(2) show ?case by (blast intro: keeps_trans)
qed

lemma Check_Segment_Failed_task:
  assumes "TaskNode t \<in> set (m_nodes seg)" "m_outcome t = Failed"
  shows "Check_Segment seg = Inr Failed"
proof -
  from assms have f: "\<exists>n \<in> set (m_nodes seg). Check_Node n = Inr Failed"
    by (auto simp: Check_Node_def Check_Task_def intro!: bexI [of _ "TaskNode t"])
  then have "m_nodes seg \<noteq> []" by auto
  with Check_loop_Failed [OF f] show ?thesis by (simp add: Check_Segment_loop)
qed

text \<open>
  C2. Recording with \<^verbatim>\<open>REQUIRE\<close> in the current segment. The task is appended to the segment
  the top of the stack points to. When the failed flag of that segment is set, the task is
  built without a result and its check is \<open>None\<close> (not run). When it is not set, the task
  carries the result (\<open>Passed\<close> for true, \<open>Failed\<close> for false), and a false result sets the
  flag. From then on, until a \<^verbatim>\<open>Reset\<close>, the flag of that segment stays set, so every later
  \<^verbatim>\<open>REQUIRE\<close> in it appends a task built without a result, and after a false result its
  check is \<open>Failed\<close>.
\<close>

theorem REQUIRE_short_circuit:
  assumes top: "top_segment s = Inr (p, seg)"
  shows
    "(\<exists>s'. REQUIRE_2 msg loc c s = Inr s' \<and>
           deref p (internal_root s') = Some (REQUIRE_2_body msg loc c seg)) \<and>
     (DidFail seg \<longrightarrow>
        m_nodes (REQUIRE_2_body msg loc c seg) = m_nodes seg @ [TaskNode (Build_Task msg loc)] \<and>
        Check_Task (Build_Task msg loc) = None_Outcome \<and>
        DidFail (REQUIRE_2_body msg loc c seg)) \<and>
     (\<not> DidFail seg \<longrightarrow>
        m_nodes (REQUIRE_2_body msg loc c seg) =
          m_nodes seg @ [TaskNode (Build_Task_result msg loc c)] \<and>
        Check_Task (Build_Task_result msg loc c) = (if c then Passed else Failed) \<and>
        DidFail (REQUIRE_2_body msg loc c seg) = (\<not> c)) \<and>
     (\<not> DidFail seg \<and> \<not> c \<longrightarrow> Check_Segment (REQUIRE_2_body msg loc c seg) = Inr Failed) \<and>
     (\<forall>calls s' s''.
        (DidFail seg \<or> \<not> c) \<and> REQUIRE_2 msg loc c s = Inr s' \<and>
        Call_Reset \<notin> set calls \<and> run calls s' = Inr s'' \<longrightarrow>
        (\<exists>seg''. deref p (internal_root s'') = Some seg'' \<and> DidFail seg'' \<and>
                 (\<forall>msg' loc' c'.
                    m_nodes (REQUIRE_2_body msg' loc' c' seg'') =
                      m_nodes seg'' @ [TaskNode (Build_Task msg' loc')]) \<and>
                 (\<not> DidFail seg \<longrightarrow> Check_Segment seg'' = Inr Failed)))"
proof -
  let ?seg' = "REQUIRE_2_body msg loc c seg"
  let ?s' = "s\<lparr>internal_root := modify (REQUIRE_2_body msg loc c) p (internal_root s)\<rparr>"
  have r: "REQUIRE_2 msg loc c s = Inr ?s'"
    using top by (simp add: REQUIRE_2_def)
  have d: "deref p (internal_root ?s') = Some ?seg'"
    using deref_modify_same [OF top_segment_deref [OF top]] by simp
  have 1: "\<exists>s'. REQUIRE_2 msg loc c s = Inr s' \<and> deref p (internal_root s') = Some ?seg'"
    using r d by blast
  have 2: "DidFail seg \<longrightarrow>
        m_nodes ?seg' = m_nodes seg @ [TaskNode (Build_Task msg loc)] \<and>
        Check_Task (Build_Task msg loc) = None_Outcome \<and> DidFail ?seg'"
    by (simp add: REQUIRE_2_body_def AddTask_def DidFail_def Check_Task_def Build_Task_def)
  have 3: "\<not> DidFail seg \<longrightarrow>
        m_nodes ?seg' = m_nodes seg @ [TaskNode (Build_Task_result msg loc c)] \<and>
        Check_Task (Build_Task_result msg loc c) = (if c then Passed else Failed) \<and>
        DidFail ?seg' = (\<not> c)"
    by (simp add: REQUIRE_2_body_def AddTask_def MarkFailed_def DidFail_def Check_Task_def
        Build_Task_result_def Build_Task_def Let_def)
  have failed_task: "\<not> DidFail seg \<Longrightarrow> \<not> c \<Longrightarrow>
      TaskNode (Build_Task_result msg loc c) \<in> set (m_nodes ?seg') \<and>
      m_outcome (Build_Task_result msg loc c) = Failed"
    using 3 by (simp add: Check_Task_def)
  have 4: "\<not> DidFail seg \<and> \<not> c \<longrightarrow> Check_Segment ?seg' = Inr Failed"
    using failed_task Check_Segment_Failed_task by blast
  have 5: "\<forall>calls s' s''.
        (DidFail seg \<or> \<not> c) \<and> REQUIRE_2 msg loc c s = Inr s' \<and>
        Call_Reset \<notin> set calls \<and> run calls s' = Inr s'' \<longrightarrow>
        (\<exists>seg''. deref p (internal_root s'') = Some seg'' \<and> DidFail seg'' \<and>
                 (\<forall>msg' loc' c'.
                    m_nodes (REQUIRE_2_body msg' loc' c' seg'') =
                      m_nodes seg'' @ [TaskNode (Build_Task msg' loc')]) \<and>
                 (\<not> DidFail seg \<longrightarrow> Check_Segment seg'' = Inr Failed))"
  proof (intro allI impI)
    fix calls s' s''
    assume a: "(DidFail seg \<or> \<not> c) \<and> REQUIRE_2 msg loc c s = Inr s' \<and>
        Call_Reset \<notin> set calls \<and> run calls s' = Inr s''"
    with r have s': "s' = ?s'" by simp
    from a have flag: "DidFail ?seg'" using 2 3 by blast
    from a s' d run_keeps [of calls s' s'' p ?seg'] obtain seg'' where
      seg'': "deref p (internal_root s'') = Some seg''" "keeps ?seg' seg''" by auto
    from seg''(2) flag have f'': "DidFail seg''" by (simp add: keeps_iff DidFail_def)
    have "\<not> DidFail seg \<longrightarrow> Check_Segment seg'' = Inr Failed"
    proof
      assume nf: "\<not> DidFail seg"
      with a have "\<not> c" by blast
      from failed_task [OF nf this] seg''(2)
      have "TaskNode (Build_Task_result msg loc c) \<in> set (m_nodes seg'')"
        by (simp add: keeps_iff)
      with failed_task [OF nf \<open>\<not> c\<close>] show "Check_Segment seg'' = Inr Failed"
        using Check_Segment_Failed_task by blast
    qed
    moreover from f'' have "\<forall>msg' loc' c'.
                    m_nodes (REQUIRE_2_body msg' loc' c' seg'') =
                      m_nodes seg'' @ [TaskNode (Build_Task msg' loc')]"
      by (simp add: REQUIRE_2_body_def AddTask_def)
    ultimately show "\<exists>seg''. deref p (internal_root s'') = Some seg'' \<and> DidFail seg'' \<and>
                 (\<forall>msg' loc' c'.
                    m_nodes (REQUIRE_2_body msg' loc' c' seg'') =
                      m_nodes seg'' @ [TaskNode (Build_Task msg' loc')]) \<and>
                 (\<not> DidFail seg \<longrightarrow> Check_Segment seg'' = Inr Failed)"
      using seg''(1) f'' by blast
  qed
  from 1 2 3 4 5 show ?thesis by blast
qed

theorem REQUIRE_short_circuit_witness:
  "top_segment initial_state = Inr ([], Segment [] [] False) \<and>
   \<not> DidFail (Segment [] [] False) \<and>
   DidFail (REQUIRE_2_body ''1 == 2'' \<lparr>file_name = ''t.cpp'', line = 7\<rparr> False
              (Segment [] [] False)) \<and>
   Check_Segment (REQUIRE_2_body ''1 == 2'' \<lparr>file_name = ''t.cpp'', line = 7\<rparr> False
                    (Segment [] [] False)) = Inr Failed \<and>
   top_segment
     \<lparr>internal_root = Segment ''Math'' [] True, internal_segment_stack = [[]],
        internal_curr_options = \<lparr>detailDepth = - 1\<rparr>\<rparr> = Inr ([], Segment ''Math'' [] True) \<and>
   DidFail (Segment ''Math'' [] True) \<and>
   m_nodes (REQUIRE_2_body ''3 == 3'' \<lparr>file_name = ''t.cpp'', line = 8\<rparr> True
              (Segment ''Math'' [] True)) =
     [TaskNode (Build_Task ''3 == 3'' \<lparr>file_name = ''t.cpp'', line = 8\<rparr>)] \<and>
   Check_Task (Build_Task ''3 == 3'' \<lparr>file_name = ''t.cpp'', line = 8\<rparr>) = None_Outcome"
proof -
  let ?s2 = "\<lparr>internal_root = Segment ''Math'' [] True, internal_segment_stack = [[]],
        internal_curr_options = \<lparr>detailDepth = - 1\<rparr>\<rparr>"
  have t1: "top_segment initial_state = Inr ([], Segment [] [] False)"
    by (simp add: top_segment_def initial_state_def Build_Segment_def)
  have t2: "top_segment ?s2 = Inr ([], Segment ''Math'' [] True)"
    by (simp add: top_segment_def)
  have f1: "\<not> DidFail (Segment [] [] False)" by (simp add: DidFail_def)
  have f2: "DidFail (Segment ''Math'' [] True)" by (simp add: DidFail_def)
  from REQUIRE_short_circuit [OF t1, of "''1 == 2''" "\<lparr>file_name = ''t.cpp'', line = 7\<rparr>" False] f1
  have 1: "DidFail (REQUIRE_2_body ''1 == 2'' \<lparr>file_name = ''t.cpp'', line = 7\<rparr> False
              (Segment [] [] False)) \<and>
     Check_Segment (REQUIRE_2_body ''1 == 2'' \<lparr>file_name = ''t.cpp'', line = 7\<rparr> False
                    (Segment [] [] False)) = Inr Failed"
    by simp
  from REQUIRE_short_circuit [OF t2, of "''3 == 3''" "\<lparr>file_name = ''t.cpp'', line = 8\<rparr>" True] f2
  have 2: "m_nodes (REQUIRE_2_body ''3 == 3'' \<lparr>file_name = ''t.cpp'', line = 8\<rparr> True
              (Segment ''Math'' [] True)) =
     [TaskNode (Build_Task ''3 == 3'' \<lparr>file_name = ''t.cpp'', line = 8\<rparr>)] \<and>
   Check_Task (Build_Task ''3 == 3'' \<lparr>file_name = ''t.cpp'', line = 8\<rparr>) = None_Outcome"
    by simp
  from t1 t2 f1 f2 1 2 show ?thesis by blast
qed

text \<open>
  C4, as stated, fails: \<^verbatim>\<open>CHECK\<close> of a false condition in the fresh root, whose flag is
  not set, records a \<open>Failed\<close> task and leaves the flag unset.
\<close>

theorem CHECK_sets_flag_counterexample:
  "top_segment initial_state = Inr ([], Segment [] [] False) \<and>
   CHECK_2 ''1 == 2'' \<lparr>file_name = ''t.cpp'', line = 7\<rparr> False initial_state =
     Inr \<lparr>internal_root =
            Segment []
              [TaskNode \<lparr>m_name = ''1 == 2'', m_source = \<lparr>file_name = ''t.cpp'', line = 7\<rparr>,
                          m_outcome = Failed\<rparr>]
              False,
          internal_segment_stack = [[]],
          internal_curr_options = \<lparr>detailDepth = - 1\<rparr>\<rparr> \<and>
   DidFail
     (Segment []
        [TaskNode \<lparr>m_name = ''1 == 2'', m_source = \<lparr>file_name = ''t.cpp'', line = 7\<rparr>,
                    m_outcome = Failed\<rparr>]
        False) = False"
  by (simp add: top_segment_def initial_state_def Build_Segment_def CHECK_2_def CHECK_2_body_def
      DidFail_def AddTask_def Build_Task_result_def Build_Task_def)

text \<open>
  C4, amended. \<^verbatim>\<open>CHECK\<close> records into the current segment and never changes its failed
  flag: after a false condition in a segment whose flag is not set, the recorded task is
  \<open>Failed\<close>, so the check of the segment is \<open>Failed\<close>, and the flag is still not set. Only
  \<^verbatim>\<open>REQUIRE\<close> sets it.
\<close>

theorem CHECK_leaves_flag:
  assumes top: "top_segment s = Inr (p, seg)"
  shows
    "(\<exists>s'. CHECK_2 msg loc c s = Inr s' \<and>
           deref p (internal_root s') = Some (CHECK_2_body msg loc c seg)) \<and>
     DidFail (CHECK_2_body msg loc c seg) = DidFail seg \<and>
     (\<not> DidFail seg \<longrightarrow>
        m_nodes (CHECK_2_body msg loc c seg) =
          m_nodes seg @ [TaskNode (Build_Task_result msg loc c)] \<and>
        Check_Task (Build_Task_result msg loc c) = (if c then Passed else Failed)) \<and>
     (\<not> DidFail seg \<and> \<not> c \<longrightarrow>
        Check_Segment (CHECK_2_body msg loc c seg) = Inr Failed \<and>
        \<not> DidFail (CHECK_2_body msg loc c seg) \<and>
        DidFail (REQUIRE_2_body msg loc c seg))"
proof -
  let ?seg' = "CHECK_2_body msg loc c seg"
  have 1: "\<exists>s'. CHECK_2 msg loc c s = Inr s' \<and> deref p (internal_root s') = Some ?seg'"
    using top deref_modify_same [OF top_segment_deref [OF top]] by (simp add: CHECK_2_def)
  have 2: "DidFail ?seg' = DidFail seg"
    by (simp add: DidFail_def CHECK_2_body_flag)
  have 3: "\<not> DidFail seg \<longrightarrow>
        m_nodes ?seg' = m_nodes seg @ [TaskNode (Build_Task_result msg loc c)] \<and>
        Check_Task (Build_Task_result msg loc c) = (if c then Passed else Failed)"
    by (simp add: CHECK_2_body_def AddTask_def Check_Task_def Build_Task_result_def Build_Task_def)
  have 4: "\<not> DidFail seg \<and> \<not> c \<longrightarrow>
        Check_Segment ?seg' = Inr Failed \<and> \<not> DidFail ?seg' \<and>
        DidFail (REQUIRE_2_body msg loc c seg)"
  proof
    assume a: "\<not> DidFail seg \<and> \<not> c"
    with 3 have "TaskNode (Build_Task_result msg loc c) \<in> set (m_nodes ?seg')"
      and "m_outcome (Build_Task_result msg loc c) = Failed"
      by (simp_all add: Check_Task_def)
    then have "Check_Segment ?seg' = Inr Failed" by (rule Check_Segment_Failed_task)
    moreover from a have "DidFail (REQUIRE_2_body msg loc c seg)"
      by (simp add: REQUIRE_2_body_def AddTask_def MarkFailed_def DidFail_def Let_def)
    ultimately show "Check_Segment ?seg' = Inr Failed \<and> \<not> DidFail ?seg' \<and>
        DidFail (REQUIRE_2_body msg loc c seg)"
      using a 2 by simp
  qed
  from 1 2 3 4 show ?thesis by blast
qed

theorem CHECK_leaves_flag_witness:
  "top_segment initial_state = Inr ([], Segment [] [] False) \<and>
   \<not> DidFail (Segment [] [] False) \<and>
   Check_Segment (CHECK_2_body ''1 == 2'' \<lparr>file_name = ''t.cpp'', line = 7\<rparr> False
                    (Segment [] [] False)) = Inr Failed \<and>
   \<not> DidFail (CHECK_2_body ''1 == 2'' \<lparr>file_name = ''t.cpp'', line = 7\<rparr> False
                 (Segment [] [] False)) \<and>
   DidFail (REQUIRE_2_body ''1 == 2'' \<lparr>file_name = ''t.cpp'', line = 7\<rparr> False
              (Segment [] [] False))"
proof -
  have t: "top_segment initial_state = Inr ([], Segment [] [] False)"
    by (simp add: top_segment_def initial_state_def Build_Segment_def)
  have f: "\<not> DidFail (Segment [] [] False)" by (simp add: DidFail_def)
  from CHECK_leaves_flag [OF t, of "''1 == 2''" "\<lparr>file_name = ''t.cpp'', line = 7\<rparr>" False] f t
  show ?thesis by simp
qed

text \<open>
  C6. Entering a named scope appends a new, empty segment to the current one, makes it the
  new top of the stack, and gives it the failed flag the parent has at that moment. A child
  of a failed parent is failed from the start, so \<^verbatim>\<open>REQUIRE\<close> and \<^verbatim>\<open>CHECK\<close> record
  tasks that did not run in it; a child of a parent that has not failed starts unfailed.
  The flag is a copy: when \<^verbatim>\<open>REQUIRE\<close> later records in the parent (the only way its flag
  changes), whatever the result, every child the parent has is left as it was.
\<close>

theorem AddSegment_snapshot:
  assumes top: "top_segment s = Inr (p, parent)"
  shows
    "(\<exists>s'. SegmentScopeManager name s = Inr s' \<and>
           internal_segment_stack s' =
             (p @ [length (m_nodes parent)]) # internal_segment_stack s \<and>
           top_segment s' =
             Inr (p @ [length (m_nodes parent)], Segment name [] (DidFail parent))) \<and>
     (DidFail parent \<longrightarrow>
        (\<forall>msg loc c.
           m_nodes (REQUIRE_2_body msg loc c (Segment name [] (DidFail parent))) =
             [TaskNode (Build_Task msg loc)] \<and>
           m_nodes (CHECK_2_body msg loc c (Segment name [] (DidFail parent))) =
             [TaskNode (Build_Task msg loc)] \<and>
           Check_Task (Build_Task msg loc) = None_Outcome)) \<and>
     (\<not> DidFail parent \<longrightarrow> \<not> DidFail (Segment name [] (DidFail parent))) \<and>
     (\<forall>i child msg loc c.
        deref (p @ [i]) (internal_root s) = Some child \<longrightarrow>
        (\<exists>s'. REQUIRE_2 msg loc c s = Inr s' \<and>
              deref (p @ [i]) (internal_root s') = Some child \<and>
              deref p (internal_root s') = Some (REQUIRE_2_body msg loc c parent) \<and>
              DidFail (REQUIRE_2_body msg loc c parent) = (DidFail parent \<or> \<not> c)))"
proof -
  let ?i = "length (m_nodes parent)"
  let ?f = "\<lambda>x. fst (AddSegment x (Build_Segment name))"
  let ?s' = "s\<lparr>internal_root := modify ?f p (internal_root s),
               internal_segment_stack := (p @ [?i]) # internal_segment_stack s\<rparr>"
  have dp: "deref p (internal_root s) = Some parent" by (rule top_segment_deref [OF top])
  have e: "SegmentScopeManager name s = Inr ?s'" by (rule SegmentScopeManager_eq [OF top])
  have "deref (p @ [?i]) (modify ?f p (internal_root s)) = deref [?i] (?f parent)"
    by (rule deref_modify_below [OF dp])
  also have "\<dots> = Some (Segment name [] (DidFail parent))"
    by (simp add: AddSegment_def Build_Segment_def DidFail_def)
  finally have "top_segment ?s' = Inr (p @ [?i], Segment name [] (DidFail parent))"
    by (simp add: top_segment_def)
  with e have 1: "\<exists>s'. SegmentScopeManager name s = Inr s' \<and>
           internal_segment_stack s' = (p @ [?i]) # internal_segment_stack s \<and>
           top_segment s' = Inr (p @ [?i], Segment name [] (DidFail parent))"
    by simp
  have 2: "DidFail parent \<longrightarrow>
        (\<forall>msg loc c.
           m_nodes (REQUIRE_2_body msg loc c (Segment name [] (DidFail parent))) =
             [TaskNode (Build_Task msg loc)] \<and>
           m_nodes (CHECK_2_body msg loc c (Segment name [] (DidFail parent))) =
             [TaskNode (Build_Task msg loc)] \<and>
           Check_Task (Build_Task msg loc) = None_Outcome)"
    by (simp add: REQUIRE_2_body_def CHECK_2_body_def AddTask_def DidFail_def Check_Task_def
        Build_Task_def)
  have 3: "\<not> DidFail parent \<longrightarrow> \<not> DidFail (Segment name [] (DidFail parent))"
    by (simp add: DidFail_def)
  have 4: "\<forall>i child msg loc c.
        deref (p @ [i]) (internal_root s) = Some child \<longrightarrow>
        (\<exists>s'. REQUIRE_2 msg loc c s = Inr s' \<and>
              deref (p @ [i]) (internal_root s') = Some child \<and>
              deref p (internal_root s') = Some (REQUIRE_2_body msg loc c parent) \<and>
              DidFail (REQUIRE_2_body msg loc c parent) = (DidFail parent \<or> \<not> c))"
  proof (intro allI impI)
    fix i child msg loc c
    assume ch: "deref (p @ [i]) (internal_root s) = Some child"
    let ?b = "REQUIRE_2_body msg loc c"
    let ?t = "s\<lparr>internal_root := modify ?b p (internal_root s)\<rparr>"
    have r: "REQUIRE_2 msg loc c s = Inr ?t" using top by (simp add: REQUIRE_2_def)
    from ch dp have ci: "deref [i] parent = Some child" by (simp add: deref_append)
    then have il: "i < length (m_nodes parent)" by (auto split: if_splits)
    have nodes: "m_nodes (?b parent) ! i = m_nodes parent ! i"
      using il REQUIRE_2_body_nodes [of msg loc c parent] by (auto simp: nth_append)
    have len: "i < length (m_nodes (?b parent))"
      using il REQUIRE_2_body_nodes [of msg loc c parent] by auto
    have "deref (p @ [i]) (modify ?b p (internal_root s)) = deref [i] (?b parent)"
      by (rule deref_modify_below [OF dp])
    also have "\<dots> = deref [i] parent" using il len nodes by simp
    finally have a: "deref (p @ [i]) (internal_root ?t) = Some child" using ci by simp
    have b: "deref p (internal_root ?t) = Some (?b parent)"
      using deref_modify_same [OF dp] by simp
    have c: "DidFail (?b parent) = (DidFail parent \<or> \<not> c)"
      by (simp add: REQUIRE_2_body_def AddTask_def MarkFailed_def DidFail_def Let_def)
    from r a b c show "\<exists>s'. REQUIRE_2 msg loc c s = Inr s' \<and>
              deref (p @ [i]) (internal_root s') = Some child \<and>
              deref p (internal_root s') = Some (REQUIRE_2_body msg loc c parent) \<and>
              DidFail (REQUIRE_2_body msg loc c parent) = (DidFail parent \<or> \<not> c)"
      by blast
  qed
  from 1 2 3 4 show ?thesis by blast
qed

theorem AddSegment_snapshot_witness:
  "top_segment initial_state = Inr ([], Segment [] [] False) \<and>
   \<not> DidFail (Segment [] [] False) \<and>
   \<not> DidFail (Segment ''A'' [] (DidFail (Segment [] [] False))) \<and>
   top_segment
     \<lparr>internal_root = Segment [] [SegmentNode (Segment ''A'' [] False)] True,
        internal_segment_stack = [[]],
        internal_curr_options = \<lparr>detailDepth = - 1\<rparr>\<rparr> =
     Inr ([], Segment [] [SegmentNode (Segment ''A'' [] False)] True) \<and>
   DidFail (Segment [] [SegmentNode (Segment ''A'' [] False)] True) \<and>
   m_nodes (REQUIRE_2_body ''2 + 2 == 4'' \<lparr>file_name = ''t.cpp'', line = 9\<rparr> True
              (Segment ''B'' [] (DidFail (Segment [] [SegmentNode (Segment ''A'' [] False)] True)))) =
     [TaskNode (Build_Task ''2 + 2 == 4'' \<lparr>file_name = ''t.cpp'', line = 9\<rparr>)] \<and>
   top_segment
     \<lparr>internal_root = Segment [] [SegmentNode (Segment ''A'' [] False)] False,
        internal_segment_stack = [[]],
        internal_curr_options = \<lparr>detailDepth = - 1\<rparr>\<rparr> =
     Inr ([], Segment [] [SegmentNode (Segment ''A'' [] False)] False) \<and>
   deref ([] @ [0]) (Segment [] [SegmentNode (Segment ''A'' [] False)] False) =
     Some (Segment ''A'' [] False) \<and>
   DidFail (REQUIRE_2_body ''1 == 2'' \<lparr>file_name = ''t.cpp'', line = 7\<rparr> False
              (Segment [] [SegmentNode (Segment ''A'' [] False)] False)) \<and>
   deref ([] @ [0])
     (REQUIRE_2_body ''1 == 2'' \<lparr>file_name = ''t.cpp'', line = 7\<rparr> False
        (Segment [] [SegmentNode (Segment ''A'' [] False)] False)) =
     Some (Segment ''A'' [] False)"
proof -
  let ?r2 = "Segment [] [SegmentNode (Segment ''A'' [] False)] True"
  let ?s2 = "\<lparr>internal_root = ?r2, internal_segment_stack = [[]],
        internal_curr_options = \<lparr>detailDepth = - 1\<rparr>\<rparr>"
  let ?r3 = "Segment [] [SegmentNode (Segment ''A'' [] False)] False"
  let ?s3 = "\<lparr>internal_root = ?r3, internal_segment_stack = [[]],
        internal_curr_options = \<lparr>detailDepth = - 1\<rparr>\<rparr>"
  have t1: "top_segment initial_state = Inr ([], Segment [] [] False)"
    by (simp add: top_segment_def initial_state_def Build_Segment_def)
  have t2: "top_segment ?s2 = Inr ([], ?r2)" by (simp add: top_segment_def)
  have t3: "top_segment ?s3 = Inr ([], ?r3)" by (simp add: top_segment_def)
  have f1: "\<not> DidFail (Segment [] [] False)" by (simp add: DidFail_def)
  have f2: "DidFail ?r2" by (simp add: DidFail_def)
  have d3: "deref ([] @ [0]) (internal_root ?s3) = Some (Segment ''A'' [] False)" by simp
  from AddSegment_snapshot [OF t1, of "''A''"] f1
  have 1: "\<not> DidFail (Segment ''A'' [] (DidFail (Segment [] [] False)))" by blast
  from AddSegment_snapshot [OF t2, of "''B''"] f2
  have 2: "m_nodes (REQUIRE_2_body ''2 + 2 == 4'' \<lparr>file_name = ''t.cpp'', line = 9\<rparr> True
              (Segment ''B'' [] (DidFail ?r2))) =
     [TaskNode (Build_Task ''2 + 2 == 4'' \<lparr>file_name = ''t.cpp'', line = 9\<rparr>)]" by blast
  from AddSegment_snapshot [OF t3, of "''C''"] d3
  have "\<exists>s'. REQUIRE_2 ''1 == 2'' \<lparr>file_name = ''t.cpp'', line = 7\<rparr> False ?s3 = Inr s' \<and>
              deref ([] @ [0]) (internal_root s') = Some (Segment ''A'' [] False) \<and>
              deref [] (internal_root s') =
                Some (REQUIRE_2_body ''1 == 2'' \<lparr>file_name = ''t.cpp'', line = 7\<rparr> False ?r3) \<and>
              DidFail (REQUIRE_2_body ''1 == 2'' \<lparr>file_name = ''t.cpp'', line = 7\<rparr> False ?r3) =
                (DidFail ?r3 \<or> \<not> False)"
    by blast
  then have 3: "DidFail (REQUIRE_2_body ''1 == 2'' \<lparr>file_name = ''t.cpp'', line = 7\<rparr> False ?r3) \<and>
     deref ([] @ [0]) (REQUIRE_2_body ''1 == 2'' \<lparr>file_name = ''t.cpp'', line = 7\<rparr> False ?r3) =
       Some (Segment ''A'' [] False)"
    by auto
  from t1 t2 t3 f1 f2 d3 1 2 3 show ?thesis by simp
qed

subsection \<open>Rendering of a task\<close>

lemma takeWhile_indent:
  "takeWhile (\<lambda>c. c = CHR '' '') (replicate n CHR '' '' @ CHR 0x1B # rest) = replicate n CHR '' ''"
  by (induction n) simp_all

lemma indent_fits:
  "0 \<le> depth \<Longrightarrow> depth < 1073741824 \<Longrightarrow> indent depth = Inr (replicate (nat (depth * 2)) CHR '' '')"
  by (simp add: indent_def)

lemma indent_overflow: "1073741824 \<le> depth \<Longrightarrow> indent depth = Inl LengthError"
  by (simp add: indent_def)

lemma digit_char: "d < 10 \<Longrightarrow> of_char (''0123456789'' ! d) = (48 + d :: nat)"
proof -
  assume "d < 10"
  then have "d = 0 \<or> d = 1 \<or> d = 2 \<or> d = 3 \<or> d = 4 \<or> d = 5 \<or> d = 6 \<or> d = 7 \<or> d = 8 \<or> d = 9"
    by arith
  then show ?thesis by (elim disjE) simp_all
qed

lemma digit_char_in: "d < 10 \<Longrightarrow> ''0123456789'' ! d \<in> set ''0123456789''"
  by (rule nth_mem) simp

lemma decimal_value_snoc:
  "decimal_value (digits @ [c]) = 10 * decimal_value digits + (of_char c - 48)"
  by (simp add: decimal_value_def)


lemma decimal_value_format_decimal: "decimal_value (format_decimal n) = n"
proof (induction n rule: format_decimal.induct)
  case (1 n)
  show ?case
  proof (cases "n < 10")
    case True
    then have e: "format_decimal n = [''0123456789'' ! n]"
      by (subst format_decimal.simps) simp
    have "decimal_value ([] @ [''0123456789'' ! n]) = n"
      unfolding decimal_value_snoc using digit_char [OF True] by (simp add: decimal_value_def)
    then show ?thesis by (simp add: e)
  next
    case False
    then have e: "format_decimal n =
        format_decimal (n div 10) @ [''0123456789'' ! (n mod 10)]"
      by (subst format_decimal.simps) simp
    from False have ih: "decimal_value (format_decimal (n div 10)) = n div 10" by (rule "1.IH")
    have "of_char (''0123456789'' ! (n mod 10)) = (48 + n mod 10 :: nat)"
      by (rule digit_char) simp
    with ih show ?thesis unfolding e decimal_value_snoc by simp
  qed
qed

lemma format_decimal_digits: "set (format_decimal n) \<subseteq> set ''0123456789''"
proof -
  define D where "D = set ''0123456789''"
  have d: "''0123456789'' ! k \<in> D" if "k < 10" for k
    unfolding D_def by (rule digit_char_in [OF that])
  have "set (format_decimal n) \<subseteq> D"
  proof (induction n rule: format_decimal.induct)
    case (1 n)
    show ?case
    proof (cases "n < 10")
      case True
      then have e: "format_decimal n = [''0123456789'' ! n]"
        by (subst format_decimal.simps) simp
      from d [OF True] show ?thesis by (simp add: e)
    next
      case False
      then have e: "format_decimal n =
          format_decimal (n div 10) @ [''0123456789'' ! (n mod 10)]"
        by (subst format_decimal.simps) simp
      from False have ih: "set (format_decimal (n div 10)) \<subseteq> D" by (rule "1.IH")
      have "''0123456789'' ! (n mod 10) \<in> D" by (rule d) simp
      with ih show ?thesis by (simp add: e)
    qed
  qed
  then show ?thesis by (simp only: D_def)
qed


lemma format_decimal_no_leading_zero:
  "format_decimal n \<noteq> [] \<and> (hd (format_decimal n) = CHR ''0'' \<longrightarrow> n = 0)"
proof (induction n rule: format_decimal.induct)
  case (1 n)
  show ?case
  proof (cases "n < 10")
    case True
    then have e: "format_decimal n = [''0123456789'' ! n]"
      by (subst format_decimal.simps) simp
    have d: "of_char (''0123456789'' ! n) = (48 + n :: nat)" by (rule digit_char [OF True])
    have "''0123456789'' ! n = CHR ''0'' \<longrightarrow> n = 0"
    proof
      assume "''0123456789'' ! n = CHR ''0''"
      with d have "(of_char CHR ''0'' :: nat) = 48 + n" by simp
      then show "n = 0" by simp
    qed
    then show ?thesis by (simp add: e)
  next
    case False
    then have e: "format_decimal n =
        format_decimal (n div 10) @ [''0123456789'' ! (n mod 10)]"
      by (subst format_decimal.simps) simp
    from False have ih: "format_decimal (n div 10) \<noteq> [] \<and>
      (hd (format_decimal (n div 10)) = CHR ''0'' \<longrightarrow> n div 10 = 0)" by (rule "1.IH")
    from False have "n div 10 \<noteq> 0" by simp
    with ih False show ?thesis by (simp add: e)
  qed
qed


lemma format_decimal_42: "format_decimal 42 = ''42''"
  by (simp add: format_decimal.simps)

text \<open>
  C7, as stated, fails. A \<open>Passed\<close> task recorded at line 42 is rendered without any
  suffix, and yet its line contains the characters of its line number: they occur in the
  green colour code. And at the depth \<open>2 ^ 30\<close> the indentation cannot be built: the call
  ends with \<^verbatim>\<open>std::length_error\<close> instead of a line that starts with \<open>2 ^ 31\<close> spaces.
\<close>

theorem Stringify_Task_contains_counterexample:
  "Check_Task (Build_Task_result ''ok'' \<lparr>file_name = ''t.cpp'', line = 42\<rparr> True) = Passed \<and>
   line (m_source (Build_Task_result ''ok'' \<lparr>file_name = ''t.cpp'', line = 42\<rparr> True)) = 42 \<and>
   format_decimal 42 = ''42'' \<and>
   Stringify_Task (Build_Task_result ''ok'' \<lparr>file_name = ''t.cpp'', line = 42\<rparr> True) 0 =
     Inr (ANSI_GREEN @ CHECK_MARK @ '' ok'' @ ANSI_RESET) \<and>
   sublist ''42'' (ANSI_GREEN @ CHECK_MARK @ '' ok'' @ ANSI_RESET) \<and>
   Stringify_Task (Build_Task_result ''ok'' \<lparr>file_name = ''t.cpp'', line = 42\<rparr> True) 1073741824 =
     Inl LengthError"
proof -
  let ?t = "Build_Task_result ''ok'' \<lparr>file_name = ''t.cpp'', line = 42\<rparr> True"
  have 1: "Check_Task ?t = Passed \<and> line (m_source ?t) = 42"
    by (simp add: Check_Task_def Build_Task_result_def Build_Task_def)
  have 2: "Stringify_Task ?t 0 = Inr (ANSI_GREEN @ CHECK_MARK @ '' ok'' @ ANSI_RESET)"
    by (simp add: Stringify_Task_def indent_def Check_Task_def Build_Task_result_def
        Build_Task_def)
  have "ANSI_GREEN @ CHECK_MARK @ '' ok'' @ ANSI_RESET =
        (CHR 0x1B # ''[38;5;'') @ ''42'' @ (''m'' @ CHECK_MARK @ '' ok'' @ ANSI_RESET)"
    by (simp add: ANSI_GREEN_def)
  then have 3: "sublist ''42'' (ANSI_GREEN @ CHECK_MARK @ '' ok'' @ ANSI_RESET)"
    unfolding sublist_def by blast
  have 4: "Stringify_Task ?t 1073741824 = Inl LengthError"
    by (simp add: Stringify_Task_def indent_def)
  from 1 2 3 4 format_decimal_42 show ?thesis by blast
qed

text \<open>
  C7, amended. The line of a task. At a depth below 0 it is empty. At a depth \<open>d\<close> with
  \<open>0 \<le> d < 2 ^ 30\<close> it starts with exactly \<open>2 * d\<close> spaces. For a \<open>Failed\<close> task it is the
  cross mark, the label and the suffix with the file name and the line number of the source
  location, which the line therefore contains; the line number is written as its decimal
  numeral, in digits only and without leading zeros. For a \<open>Passed\<close> or not-run task it is
  the mark and the label only: no part of it is taken from the source location, so it is
  the same whatever the location is.
\<close>

theorem Stringify_Task_line:
  "(depth < 0 \<longrightarrow> Stringify_Task t depth = Inr []) \<and>
   (0 \<le> depth \<and> depth < 1073741824 \<longrightarrow>
      (\<exists>rendered. Stringify_Task t depth = Inr rendered \<and>
         prefix (replicate (nat (depth * 2)) CHR '' '') rendered \<and>
         takeWhile (\<lambda>c. c = CHR '' '') rendered = replicate (nat (depth * 2)) CHR '' '')) \<and>
   (0 \<le> depth \<and> depth < 1073741824 \<and> Check_Task t = Failed \<longrightarrow>
      (\<exists>rendered. Stringify_Task t depth = Inr rendered \<and>
         rendered =
           replicate (nat (depth * 2)) CHR '' '' @ ANSI_RED @ CROSS_MARK @ '' '' @ m_name t @
           '' ( at file: '' @ file_name (m_source t) @ '', line: '' @
           format_decimal (line (m_source t)) @ '' )'' @ ANSI_RESET \<and>
         sublist (file_name (m_source t)) rendered \<and>
         sublist (format_decimal (line (m_source t))) rendered)) \<and>
   (0 \<le> depth \<and> depth < 1073741824 \<and> Check_Task t = Passed \<longrightarrow>
      Stringify_Task t depth =
        Inr (replicate (nat (depth * 2)) CHR '' '' @ ANSI_GREEN @ CHECK_MARK @ '' '' @ m_name t @
             ANSI_RESET)) \<and>
   (0 \<le> depth \<and> depth < 1073741824 \<and> Check_Task t = None_Outcome \<longrightarrow>
      Stringify_Task t depth =
        Inr (replicate (nat (depth * 2)) CHR '' '' @ ANSI_GRAY @ CIRCLE_SYM @ '' '' @ m_name t @
             ANSI_RESET)) \<and>
   (Check_Task t \<noteq> Failed \<longrightarrow>
      (\<forall>source. Stringify_Task (t\<lparr>m_source := source\<rparr>) depth = Stringify_Task t depth)) \<and>
   decimal_value (format_decimal (line (m_source t))) = line (m_source t) \<and>
   set (format_decimal (line (m_source t))) \<subseteq> set ''0123456789'' \<and>
   format_decimal (line (m_source t)) \<noteq> [] \<and>
   (hd (format_decimal (line (m_source t))) = CHR ''0'' \<longrightarrow> line (m_source t) = 0)"
proof -
  let ?ind = "replicate (nat (depth * 2)) CHR '' ''"
  let ?failed = "?ind @ ANSI_RED @ CROSS_MARK @ '' '' @ m_name t @
        '' ( at file: '' @ file_name (m_source t) @ '', line: '' @
        format_decimal (line (m_source t)) @ '' )'' @ ANSI_RESET"
  let ?fits = "0 \<le> depth \<and> depth < 1073741824"
  have 1: "depth < 0 \<longrightarrow> Stringify_Task t depth = Inr []"
    by (simp add: Stringify_Task_def)
  have shape: "?fits \<Longrightarrow> \<exists>rest. Stringify_Task t depth = Inr (?ind @ CHR 0x1B # rest)"
    by (simp add: Stringify_Task_def indent_fits Let_def ANSI_GREEN_def ANSI_GRAY_def ANSI_RED_def)
  have 2: "?fits \<longrightarrow>
      (\<exists>rendered. Stringify_Task t depth = Inr rendered \<and> prefix ?ind rendered \<and>
         takeWhile (\<lambda>c. c = CHR '' '') rendered = ?ind)"
  proof
    assume ?fits
    from shape [OF this] obtain rest where r: "Stringify_Task t depth = Inr (?ind @ CHR 0x1B # rest)"
      by blast
    have "prefix ?ind (?ind @ CHR 0x1B # rest) \<and>
      takeWhile (\<lambda>c. c = CHR '' '') (?ind @ CHR 0x1B # rest) = ?ind"
      by (simp only: takeWhile_indent prefix_def) blast
    with r show "\<exists>rendered. Stringify_Task t depth = Inr rendered \<and> prefix ?ind rendered \<and>
         takeWhile (\<lambda>c. c = CHR '' '') rendered = ?ind" by blast
  qed
  have f: "0 \<le> depth \<and> depth < 1073741824 \<and> Check_Task t = Failed \<longrightarrow> Stringify_Task t depth = Inr ?failed"
    by (simp add: Stringify_Task_def indent_fits Let_def)
  have s1: "sublist (file_name (m_source t)) ?failed"
    unfolding sublist_def
    by (rule exI [of _ "?ind @ ANSI_RED @ CROSS_MARK @ '' '' @ m_name t @ '' ( at file: ''"],
        rule exI [of _ "'', line: '' @ format_decimal (line (m_source t)) @ '' )'' @ ANSI_RESET"])
       simp
  have s2: "sublist (format_decimal (line (m_source t))) ?failed"
    unfolding sublist_def
    by (rule exI [of _ "?ind @ ANSI_RED @ CROSS_MARK @ '' '' @ m_name t @ '' ( at file: '' @
            file_name (m_source t) @ '', line: ''"],
        rule exI [of _ "'' )'' @ ANSI_RESET"])
       simp
  have 3: "0 \<le> depth \<and> depth < 1073741824 \<and> Check_Task t = Failed \<longrightarrow>
      (\<exists>rendered. Stringify_Task t depth = Inr rendered \<and> rendered = ?failed \<and>
         sublist (file_name (m_source t)) rendered \<and>
         sublist (format_decimal (line (m_source t))) rendered)"
    using f s1 s2 by blast
  have 4: "0 \<le> depth \<and> depth < 1073741824 \<and> Check_Task t = Passed \<longrightarrow>
      Stringify_Task t depth =
        Inr (?ind @ ANSI_GREEN @ CHECK_MARK @ '' '' @ m_name t @ ANSI_RESET)"
    by (simp add: Stringify_Task_def indent_fits Let_def)
  have 5: "0 \<le> depth \<and> depth < 1073741824 \<and> Check_Task t = None_Outcome \<longrightarrow>
      Stringify_Task t depth =
        Inr (?ind @ ANSI_GRAY @ CIRCLE_SYM @ '' '' @ m_name t @ ANSI_RESET)"
    by (simp add: Stringify_Task_def indent_fits Let_def)
  have 6: "Check_Task t \<noteq> Failed \<longrightarrow>
      (\<forall>source. Stringify_Task (t\<lparr>m_source := source\<rparr>) depth = Stringify_Task t depth)"
    by (simp add: Stringify_Task_def Let_def Check_Task_def split: sum.splits)
  note 7 = decimal_value_format_decimal [of "line (m_source t)"]
  note 8 = format_decimal_digits [of "line (m_source t)"]
  note 9 = format_decimal_no_leading_zero [of "line (m_source t)", THEN conjunct1]
  note 10 = format_decimal_no_leading_zero [of "line (m_source t)", THEN conjunct2]
  show ?thesis by (intro conjI) (rule 1 2 3 4 5 6 7 8 9 10)+
qed

theorem Stringify_Task_line_witness:
  "(- 1 :: int) < 0 \<and>
   Stringify_Task (Build_Task_result ''1 == 2'' \<lparr>file_name = ''t.cpp'', line = 42\<rparr> False) (- 1) =
     Inr [] \<and>
   (0 :: int) \<le> 2 \<and> (2 :: int) < 1073741824 \<and>
   Check_Task (Build_Task_result ''1 == 2'' \<lparr>file_name = ''t.cpp'', line = 42\<rparr> False) = Failed \<and>
   Stringify_Task (Build_Task_result ''1 == 2'' \<lparr>file_name = ''t.cpp'', line = 42\<rparr> False) 2 =
     Inr (''    '' @ ANSI_RED @ CROSS_MARK @ '' 1 == 2 ( at file: t.cpp, line: 42 )'' @
          ANSI_RESET) \<and>
   Check_Task (Build_Task_result ''2 + 2 == 4'' \<lparr>file_name = ''t.cpp'', line = 41\<rparr> True) = Passed \<and>
   Stringify_Task (Build_Task_result ''2 + 2 == 4'' \<lparr>file_name = ''t.cpp'', line = 41\<rparr> True) 1 =
     Inr (''  '' @ ANSI_GREEN @ CHECK_MARK @ '' 2 + 2 == 4'' @ ANSI_RESET) \<and>
   Check_Task (Build_Task ''3 == 3'' \<lparr>file_name = ''t.cpp'', line = 43\<rparr>) = None_Outcome \<and>
   Stringify_Task (Build_Task ''3 == 3'' \<lparr>file_name = ''t.cpp'', line = 43\<rparr>) 0 =
     Inr (ANSI_GRAY @ CIRCLE_SYM @ '' 3 == 3'' @ ANSI_RESET)"
proof -
  let ?f = "Build_Task_result ''1 == 2'' \<lparr>file_name = ''t.cpp'', line = 42\<rparr> False"
  let ?p = "Build_Task_result ''2 + 2 == 4'' \<lparr>file_name = ''t.cpp'', line = 41\<rparr> True"
  let ?n = "Build_Task ''3 == 3'' \<lparr>file_name = ''t.cpp'', line = 43\<rparr>"
  have r4: "replicate 4 CHR '' '' = ''    ''" by (simp add: numeral_eq_Suc)
  have r2: "replicate 2 CHR '' '' = ''  ''" by (simp add: numeral_eq_Suc)
  have cf: "Check_Task ?f = Failed" by (simp add: Check_Task_def Build_Task_result_def)
  have cp: "Check_Task ?p = Passed" by (simp add: Check_Task_def Build_Task_result_def)
  have cn: "Check_Task ?n = None_Outcome" by (simp add: Check_Task_def Build_Task_def)
  from Stringify_Task_line [of "- 1" ?f] have 1: "Stringify_Task ?f (- 1) = Inr []" by simp
  from Stringify_Task_line [of 2 ?f] cf
  have 2: "Stringify_Task ?f 2 =
     Inr (''    '' @ ANSI_RED @ CROSS_MARK @ '' 1 == 2 ( at file: t.cpp, line: 42 )'' @
          ANSI_RESET)"
    by (simp add: Build_Task_result_def Build_Task_def format_decimal_42 r4)
  from Stringify_Task_line [of 1 ?p] cp
  have 3: "Stringify_Task ?p 1 = Inr (''  '' @ ANSI_GREEN @ CHECK_MARK @ '' 2 + 2 == 4'' @ ANSI_RESET)"
    by (simp add: Build_Task_result_def Build_Task_def r2)
  from Stringify_Task_line [of 0 ?n] cn
  have 4: "Stringify_Task ?n 0 = Inr (ANSI_GRAY @ CIRCLE_SYM @ '' 3 == 3'' @ ANSI_RESET)"
    by (simp add: Build_Task_def)
  from cf cp cn 1 2 3 4 show ?thesis by simp
qed

subsection \<open>Rendering of a segment\<close>

lemma Stringify_Task_fits: "depth < 1073741824 \<Longrightarrow> \<exists>r. Stringify_Task t depth = Inr r"
  by (simp add: Stringify_Task_def indent_def Let_def)

lemma Stringify_Task_error: "Stringify_Task t depth = Inl e \<Longrightarrow> e = LengthError"
  by (auto simp: Stringify_Task_def indent_def Let_def split: if_splits)

lemma Stringify_loop_blocks:
  assumes "\<forall>t. TaskNode t \<in> set nodes \<longrightarrow> (\<exists>r. Stringify_Task t (depth + 1) = Inr r)"
    and "\<forall>sub. SegmentNode sub \<in> set nodes \<longrightarrow>
           (\<exists>r. Stringify_Segment opts sub (depth + 1) = Inr r)"
  shows "\<exists>pieces. list_all2 (child_block opts depth) nodes pieces \<and>
           Stringify_loop opts nodes depth out = Inr (out @ concat pieces)"
  using assms
proof (induction nodes arbitrary: out)
  case Nil
  show ?case by simp
next
  case (Cons n rest)
  from Cons.prems have rest:
    "\<forall>t. TaskNode t \<in> set rest \<longrightarrow> (\<exists>r. Stringify_Task t (depth + 1) = Inr r)"
    "\<forall>sub. SegmentNode sub \<in> set rest \<longrightarrow>
           (\<exists>r. Stringify_Segment opts sub (depth + 1) = Inr r)" by simp_all
  show ?case
  proof (cases n)
    case (TaskNode t)
    with Cons.prems obtain r where r: "Stringify_Task t (depth + 1) = Inr r" by auto
    let ?piece = "[CHR 0x0A] @ r"
    from Cons.IH [OF rest, of "out @ ?piece"] obtain pieces where
      p: "list_all2 (child_block opts depth) rest pieces"
         "Stringify_loop opts rest depth (out @ ?piece) = Inr ((out @ ?piece) @ concat pieces)"
      by blast
    have "child_block opts depth n ?piece" by (simp add: child_block_def TaskNode r)
    with p have "list_all2 (child_block opts depth) (n # rest) (?piece # pieces)" by simp
    moreover from p(2) have "Stringify_loop opts (n # rest) depth out = Inr (out @ concat (?piece # pieces))"
      by (simp add: TaskNode r)
    ultimately show ?thesis by blast
  next
    case (SegmentNode sub)
    with Cons.prems obtain r where r: "Stringify_Segment opts sub (depth + 1) = Inr r" by auto
    let ?pad = "if \<not> suffix [CHR 0x0A] out then [CHR 0x0A] else []"
    let ?piece = "?pad @ [CHR 0x0A] @ r @ [CHR 0x0A]"
    from Cons.IH [OF rest, of "out @ ?piece"] obtain pieces where
      p: "list_all2 (child_block opts depth) rest pieces"
         "Stringify_loop opts rest depth (out @ ?piece) = Inr ((out @ ?piece) @ concat pieces)"
      by blast
    have "child_block opts depth n ?piece" by (simp add: child_block_def SegmentNode r)
    with p have "list_all2 (child_block opts depth) (n # rest) (?piece # pieces)" by simp
    moreover have "Stringify_loop opts (n # rest) depth out =
        Stringify_loop opts rest depth (out @ ?piece)"
      by (cases "suffix [CHR 0x0A] out") (simp_all add: SegmentNode r)
    with p(2) have "Stringify_loop opts (n # rest) depth out = Inr (out @ concat (?piece # pieces))"
      by (simp del: Stringify_loop.simps)
    ultimately show ?thesis by blast
  qed
qed

lemma Stringify_Segment_shape:
  assumes "Check_Segment seg = Inr outcome" and "depth < 1073741824"
  shows "Stringify_Segment opts seg depth =
     (if outcome \<noteq> None_Outcome \<and>
         (depth < uint (word_of_int (detailDepth opts) :: 16 word) \<or> outcome = Failed)
      then (case Stringify_loop opts (m_nodes seg) depth
                   (segment_line (m_name_Segment seg) outcome depth) of
              Inl e \<Rightarrow> Inl e
            | Inr out \<Rightarrow> Inr (out @ ANSI_RESET))
      else Inr (segment_line (m_name_Segment seg) outcome depth @ ANSI_RESET))"
proof (cases seg)
  case (Segment name nodes didFail)
  with assms have c: "Check_Segment (Segment name nodes didFail) = Inr outcome" by simp
  have i: "(if depth < 0 then Inr [] else indent depth) =
      Inr (if depth < 0 then [] else replicate (nat (depth * 2)) CHR '' '')"
    using assms(2) by (simp add: indent_def)
  show ?thesis
    unfolding Segment Stringify_Segment.simps c i
    by (cases outcome) (simp_all add: segment_line_def Let_def)
qed

lemma Stringify_Segment_ends:
  "Stringify_Segment opts seg depth = Inr report \<Longrightarrow> \<exists>r. report = r @ ANSI_RESET"
  by (cases seg) (auto simp: Let_def split: sum.splits if_splits)

lemma height_positive: "0 < height seg"
  by (cases seg) simp

lemma height_child:
  assumes "SegmentNode sub \<in> set (m_nodes seg)"
  shows "height sub < height seg"
proof (cases seg)
  case (Segment name nodes didFail)
  let ?hs = "map (\<lambda>n. case n of TaskNode t \<Rightarrow> 0 | SegmentNode sub \<Rightarrow> height sub) nodes"
  from assms Segment have "height sub \<in> set (0 # ?hs)" by force
  then have "height sub \<le> Max (set (0 # ?hs))" by (intro Max_ge) simp_all
  with Segment show ?thesis by simp
qed

lemma Stringify_Segment_fits:
  "depth + int (height seg) < 1073741824 \<Longrightarrow>
   \<exists>r. Stringify_Segment opts seg depth = Inr (r @ ANSI_RESET)"
proof (induction seg arbitrary: depth)
  case (Segment name nodes didFail)
  let ?seg = "Segment name nodes didFail"
  obtain outcome where c: "Check_Segment ?seg = Inr outcome"
    using Check_Segment_total by blast
  from Segment.prems height_positive [of ?seg] have d: "depth + 1 < 1073741824" "depth < 1073741824"
    by linarith+
  have tasks: "\<forall>t. TaskNode t \<in> set nodes \<longrightarrow> (\<exists>r. Stringify_Task t (depth + 1) = Inr r)"
    using Stringify_Task_fits [OF d(1)] by blast
  have subs: "\<forall>sub. SegmentNode sub \<in> set nodes \<longrightarrow>
           (\<exists>r. Stringify_Segment opts sub (depth + 1) = Inr r)"
  proof (intro allI impI)
    fix sub assume sub: "SegmentNode sub \<in> set nodes"
    then have "height sub < height ?seg" using height_child [of sub ?seg] by simp
    with Segment.prems have "depth + 1 + int (height sub) < 1073741824" by linarith
    from Segment.IH [OF sub _ this] show "\<exists>r. Stringify_Segment opts sub (depth + 1) = Inr r"
      by auto
  qed
  from Stringify_loop_blocks [OF tasks subs, of "segment_line name outcome depth"]
  obtain pieces where
    "Stringify_loop opts nodes depth (segment_line name outcome depth) =
       Inr (segment_line name outcome depth @ concat pieces)" by blast
  then show ?case
    by (simp add: Stringify_Segment_shape [OF c d(2)] del: Stringify_Segment.simps)
qed

lemma Stringify_loop_error:
  assumes "\<forall>sub. SegmentNode sub \<in> set nodes \<longrightarrow>
             (\<forall>e. Stringify_Segment opts sub (depth + 1) = Inl e \<longrightarrow> e = LengthError)"
  shows "Stringify_loop opts nodes depth out = Inl e \<Longrightarrow> e = LengthError"
  using assms
proof (induction nodes arbitrary: out)
  case Nil
  then show ?case by simp
next
  case (Cons n rest)
  from Cons.prems(2) have rest: "\<forall>sub. SegmentNode sub \<in> set rest \<longrightarrow>
             (\<forall>e. Stringify_Segment opts sub (depth + 1) = Inl e \<longrightarrow> e = LengthError)" by simp
  show ?case
  proof (cases n)
    case (TaskNode t)
    show ?thesis
    proof (cases "Stringify_Task t (depth + 1)")
      case (Inl e')
      with Cons.prems(1) TaskNode have "e = e'" by simp
      with Stringify_Task_error [OF Inl] show ?thesis by simp
    next
      case (Inr r)
      with Cons.prems(1) TaskNode
      have "Stringify_loop opts rest depth (out @ [CHR 0x0A] @ r) = Inl e" by simp
      from Cons.IH [OF this rest] show ?thesis .
    qed
  next
    case (SegmentNode sub)
    show ?thesis
    proof (cases "Stringify_Segment opts sub (depth + 1)")
      case (Inl e')
      with Cons.prems(1) SegmentNode have "e = e'" by (simp add: Let_def)
      with Inl Cons.prems(2) SegmentNode show ?thesis by simp
    next
      case (Inr r)
      with Cons.prems(1) SegmentNode obtain out' where
        "Stringify_loop opts rest depth out' = Inl e" by (simp add: Let_def)
      from Cons.IH [OF this rest] show ?thesis .
    qed
  qed
qed

lemma Stringify_Segment_error:
  "Stringify_Segment opts seg depth = Inl e \<Longrightarrow> e = LengthError"
proof (induction seg arbitrary: depth e)
  case (Segment name nodes didFail)
  let ?seg = "Segment name nodes didFail"
  obtain outcome where c: "Check_Segment ?seg = Inr outcome"
    using Check_Segment_total by blast
  have subs: "\<forall>sub. SegmentNode sub \<in> set nodes \<longrightarrow>
             (\<forall>e. Stringify_Segment opts sub (depth + 1) = Inl e \<longrightarrow> e = LengthError)"
    using Segment.IH by fastforce
  have loop: "Stringify_loop opts nodes depth out = Inl e' \<Longrightarrow> e' = LengthError" for out e'
    by (rule Stringify_loop_error [OF subs])
  from Segment.prems show ?case
    unfolding Stringify_Segment.simps c
    by (auto simp: indent_def Let_def split: if_splits sum.splits dest: loop)
qed

lemma find_first_not_of_Some:
  "\<exists>c \<in> set s. c \<notin> set chars \<Longrightarrow> \<exists>k. find_first_not_of s chars = Some k \<and> k < length s"
  by (induction s) auto

lemma GenerateReport_error: "GenerateReport s = Inl e \<Longrightarrow> e = LengthError"
proof (cases "Stringify_Segment (internal_curr_options s) (internal_root s) (- 1)")
  case (Inl e')
  moreover assume "GenerateReport s = Inl e"
  ultimately have "e = e'" by (simp add: GenerateReport_def)
  with Stringify_Segment_error [OF Inl] show ?thesis by simp
next
  case (Inr report)
  from Stringify_Segment_ends [OF Inr] obtain r where r: "report = r @ ANSI_RESET" by blast
  have "\<exists>c \<in> set (r @ ANSI_RESET). c \<notin> set [CHR 0x0A]" by (simp add: ANSI_RESET_def)
  from find_first_not_of_Some [OF this] obtain k where
    "find_first_not_of (r @ ANSI_RESET) [CHR 0x0A] = Some k" "k < length (r @ ANSI_RESET)"
    by blast
  with Inr r have "\<exists>x. GenerateReport s = Inr x" by (simp add: GenerateReport_def substr_def)
  moreover assume "GenerateReport s = Inl e"
  ultimately show ?thesis by simp
qed

lemma step_GenerateReport: "step Call_GenerateReport s = Inr s"
proof (cases "GenerateReport s")
  case (Inl e)
  with GenerateReport_error [OF Inl] show ?thesis by simp
next
  case (Inr report)
  then show ?thesis by simp
qed




subsection \<open>The assertion of the aggregation\<close>





subsection \<open>Reset and the report of an empty root\<close>

lemma pop_all_empty: "pop_all stack = []"
  by (induction stack) simp_all

lemma step_root_name:
  assumes "step c s = Inr s'"
  shows "m_name_Segment (internal_root s') = m_name_Segment (internal_root s)"
proof (cases "c = Call_Reset")
  case True
  with assms show ?thesis by (auto simp: Reset_def)
next
  case False
  from step_root [OF assms False] obtain f p where
    "internal_root s' = modify f p (internal_root s)"
    "\<And>x. m_name_Segment (f x) = m_name_Segment x" by blast
  then show ?thesis by (simp add: m_name_modify)
qed

lemma run_root_name:
  "run calls s = Inr s' \<Longrightarrow> m_name_Segment (internal_root s') = m_name_Segment (internal_root s)"
proof (induction calls arbitrary: s)
  case Nil
  then show ?case by simp
next
  case (Cons c calls)
  from Cons.prems obtain s1 where s1: "step c s = Inr s1" "run calls s1 = Inr s'"
    by (auto split: sum.splits)
  from Cons.IH [OF s1(2)] step_root_name [OF s1(1)] show ?case by simp
qed

lemma GenerateReport_empty_root:
  "internal_root s = Segment [] [] False \<Longrightarrow> GenerateReport s = Inr (ANSI_GRAY @ ANSI_RESET)"
  by (simp add: GenerateReport_def substr_def ANSI_GRAY_def ANSI_RESET_def)

text \<open>
  C8. \<^verbatim>\<open>Reset\<close> clears the children and the failed flag of the root and leaves the stack
  with the root alone. So after any sequence of calls from the initial state, \<^verbatim>\<open>Reset\<close>
  gives the initial state again, apart from the options, and the report generated then is
  the report of the initial state.
\<close>

theorem Reset_clears:
  "m_nodes (internal_root (Reset s)) = [] \<and>
   \<not> m_didFail (internal_root (Reset s)) \<and>
   internal_segment_stack (Reset s) = [[]] \<and>
   (run calls initial_state = Inr s \<longrightarrow>
      Reset s = initial_state\<lparr>internal_curr_options := internal_curr_options s\<rparr> \<and>
      GenerateReport (Reset s) = GenerateReport initial_state)"
proof -
  have 1: "m_nodes (internal_root (Reset s)) = [] \<and> \<not> m_didFail (internal_root (Reset s)) \<and>
     internal_segment_stack (Reset s) = [[]]"
    by (simp add: Reset_def pop_all_empty)
  have 2: "run calls initial_state = Inr s \<longrightarrow>
      Reset s = initial_state\<lparr>internal_curr_options := internal_curr_options s\<rparr> \<and>
      GenerateReport (Reset s) = GenerateReport initial_state"
  proof
    assume "run calls initial_state = Inr s"
    from run_root_name [OF this] have n: "m_name_Segment (internal_root s) = []"
      by (simp add: initial_state_def Build_Segment_def)
    then have r: "Reset s = initial_state\<lparr>internal_curr_options := internal_curr_options s\<rparr>"
      by (simp add: Reset_def pop_all_empty initial_state_def Build_Segment_def)
    have "internal_root (Reset s) = Segment [] [] False"
      by (simp add: r initial_state_def Build_Segment_def)
    then have "GenerateReport (Reset s) = Inr (ANSI_GRAY @ ANSI_RESET)"
      by (rule GenerateReport_empty_root)
    moreover have "GenerateReport initial_state = Inr (ANSI_GRAY @ ANSI_RESET)"
      by (rule GenerateReport_empty_root) (simp add: initial_state_def Build_Segment_def)
    ultimately show "Reset s = initial_state\<lparr>internal_curr_options := internal_curr_options s\<rparr> \<and>
      GenerateReport (Reset s) = GenerateReport initial_state"
      using r by simp
  qed
  from 1 2 show ?thesis by blast
qed

theorem Reset_clears_witness:
  "run [Enter_SECTION ''Math'',
        REQUIRE ''1 == 2'' \<lparr>file_name = ''t.cpp'', line = 7\<rparr> False,
        Call_SetNewOptions \<lparr>detailDepth = 0\<rparr>] initial_state =
     Inr \<lparr>internal_root =
            Segment []
              [SegmentNode (Segment ''Math''
                 [TaskNode \<lparr>m_name = ''1 == 2'',
                             m_source = \<lparr>file_name = ''t.cpp'', line = 7\<rparr>,
                             m_outcome = Failed\<rparr>] True)] False,
          internal_segment_stack = [[0], []],
          internal_curr_options = \<lparr>detailDepth = 0\<rparr>\<rparr> \<and>
   GenerateReport
     (Reset \<lparr>internal_root =
            Segment []
              [SegmentNode (Segment ''Math''
                 [TaskNode \<lparr>m_name = ''1 == 2'',
                             m_source = \<lparr>file_name = ''t.cpp'', line = 7\<rparr>,
                             m_outcome = Failed\<rparr>] True)] False,
          internal_segment_stack = [[0], []],
          internal_curr_options = \<lparr>detailDepth = 0\<rparr>\<rparr>) = GenerateReport initial_state \<and>
   GenerateReport initial_state = Inr (ANSI_GRAY @ ANSI_RESET)"
proof -
  let ?s = "\<lparr>internal_root =
            Segment []
              [SegmentNode (Segment ''Math''
                 [TaskNode \<lparr>m_name = ''1 == 2'',
                             m_source = \<lparr>file_name = ''t.cpp'', line = 7\<rparr>,
                             m_outcome = Failed\<rparr>] True)] False,
          internal_segment_stack = [[0], []],
          internal_curr_options = \<lparr>detailDepth = 0\<rparr>\<rparr>"
  let ?calls = "[Enter_SECTION ''Math'',
        REQUIRE ''1 == 2'' \<lparr>file_name = ''t.cpp'', line = 7\<rparr> False,
        Call_SetNewOptions \<lparr>detailDepth = 0\<rparr>]"
  have r: "run ?calls initial_state = Inr ?s"
    by (simp add: initial_state_def Build_Segment_def REQUIRE_2_def top_segment_def
        REQUIRE_2_body_def DidFail_def AddTask_def MarkFailed_def Build_Task_result_def
        Build_Task_def SegmentScopeManager_def AddSegment_def SetNewOptions_def Let_def)
  from Reset_clears [of ?s ?calls] r
  have 1: "GenerateReport (Reset ?s) = GenerateReport initial_state" by blast
  have 2: "GenerateReport initial_state = Inr (ANSI_GRAY @ ANSI_RESET)"
    by (rule GenerateReport_empty_root) (simp add: initial_state_def Build_Segment_def)
  from r 1 2 show ?thesis by blast
qed

subsection \<open>The scope stack\<close>

lemma stack_invariant_modify:
  assumes inv: "stack_invariant s"
    and f: "\<And>x. \<exists>ys. m_nodes (f x) = m_nodes x @ ys" "\<And>x. m_didFail x \<Longrightarrow> m_didFail (f x)"
  shows "stack_invariant (s\<lparr>internal_root := modify f p (internal_root s)\<rparr>)"
proof -
  have "deref q (modify f p (internal_root s)) \<noteq> None"
    if "deref q (internal_root s) \<noteq> None" for q
  proof -
    from that obtain seg where "deref q (internal_root s) = Some seg" by auto
    from deref_modify_keeps [of f, OF f this] show ?thesis by auto
  qed
  with inv show ?thesis by (auto simp: stack_invariant_def list_all_iff)
qed

lemma stack_invariant_top:
  assumes "stack_invariant s"
  shows "\<exists>seg. top_segment s = Inr (hd (internal_segment_stack s), seg)"
proof -
  from assms obtain p rest where st: "internal_segment_stack s = p # rest"
    by (cases "internal_segment_stack s") (auto simp: stack_invariant_def)
  with assms obtain seg where "deref p (internal_root s) = Some seg"
    by (auto simp: stack_invariant_def)
  with st show ?thesis by (simp add: top_segment_def)
qed

lemma stack_invariant_Enter:
  assumes inv: "stack_invariant s"
  shows "\<exists>s'. SegmentScopeManager name s = Inr s' \<and> stack_invariant s' \<and>
           length (internal_segment_stack s') = Suc (length (internal_segment_stack s))"
proof -
  from stack_invariant_top [OF inv] obtain p seg where t: "top_segment s = Inr (p, seg)" by blast
  let ?f = "\<lambda>x. fst (AddSegment x (Build_Segment name))"
  let ?new = "p @ [length (m_nodes seg)]"
  let ?s1 = "s\<lparr>internal_root := modify ?f p (internal_root s)\<rparr>"
  let ?s' = "s\<lparr>internal_root := modify ?f p (internal_root s),
               internal_segment_stack := ?new # internal_segment_stack s\<rparr>"
  have e: "SegmentScopeManager name s = Inr ?s'" by (rule SegmentScopeManager_eq [OF t])
  have inv1: "stack_invariant ?s1"
    by (rule stack_invariant_modify [OF inv]) (simp_all add: AddSegment_def)
  have "deref ?new (modify ?f p (internal_root s)) = deref [length (m_nodes seg)] (?f seg)"
    by (rule deref_modify_below [OF top_segment_deref [OF t]])
  then have "deref ?new (modify ?f p (internal_root s)) \<noteq> None"
    by (simp add: AddSegment_def)
  with inv1 have "stack_invariant ?s'" by (auto simp: stack_invariant_def)
  with e show ?thesis by simp
qed

lemma stack_invariant_Leave:
  assumes inv: "stack_invariant s" and l: "1 < length (internal_segment_stack s)"
  shows "\<exists>s'. SegmentScopeManager_destructor s = Inr s' \<and> stack_invariant s' \<and>
           Suc (length (internal_segment_stack s')) = length (internal_segment_stack s)"
proof -
  from l obtain p q rest where st: "internal_segment_stack s = p # q # rest"
    by (cases "internal_segment_stack s"; cases "tl (internal_segment_stack s)") auto
  with inv have "stack_invariant (s\<lparr>internal_segment_stack := tl (internal_segment_stack s)\<rparr>)"
    by (auto simp: stack_invariant_def)
  with l st show ?thesis by (simp add: SegmentScopeManager_destructor_def)
qed

lemma stack_invariant_REQUIRE:
  assumes inv: "stack_invariant s"
  shows "\<exists>s'. REQUIRE_2 msg loc c s = Inr s' \<and> stack_invariant s' \<and>
           internal_segment_stack s' = internal_segment_stack s"
proof -
  from stack_invariant_top [OF inv] obtain p seg where t: "top_segment s = Inr (p, seg)" by blast
  have "stack_invariant (s\<lparr>internal_root := modify (REQUIRE_2_body msg loc c) p (internal_root s)\<rparr>)"
    by (rule stack_invariant_modify [OF inv]) (simp_all add: REQUIRE_2_body_nodes REQUIRE_2_body_flag)
  with t show ?thesis by (simp add: REQUIRE_2_def)
qed

lemma stack_invariant_CHECK:
  assumes inv: "stack_invariant s"
  shows "\<exists>s'. CHECK_2 msg loc c s = Inr s' \<and> stack_invariant s' \<and>
           internal_segment_stack s' = internal_segment_stack s"
proof -
  from stack_invariant_top [OF inv] obtain p seg where t: "top_segment s = Inr (p, seg)" by blast
  have "stack_invariant (s\<lparr>internal_root := modify (CHECK_2_body msg loc c) p (internal_root s)\<rparr>)"
    by (rule stack_invariant_modify [OF inv]) (simp_all add: CHECK_2_body_nodes CHECK_2_body_flag)
  with t show ?thesis by (simp add: CHECK_2_def)
qed

lemma stack_invariant_Reset: "stack_invariant (Reset s)"
  by (simp add: stack_invariant_def Reset_def pop_all_empty)

lemma stack_invariant_options:
  "stack_invariant s \<Longrightarrow> stack_invariant (SetNewOptions newOptions s)"
  by (simp add: stack_invariant_def SetNewOptions_def)

lemma stack_invariant_initial: "stack_invariant initial_state"
  by (simp add: stack_invariant_def initial_state_def)

lemma stack_invariant_step:
  assumes inv: "stack_invariant s" and st: "step c s = Inr s'"
  shows "stack_invariant s'"
proof (cases c)
  case (Enter_SECTION name)
  with st stack_invariant_Enter [OF inv, of name] show ?thesis by auto
next
  case Leave_SECTION
  with st have "1 < length (internal_segment_stack s)"
    by (auto simp: SegmentScopeManager_destructor_def split: if_splits)
  from stack_invariant_Leave [OF inv this] st Leave_SECTION show ?thesis by auto
next
  case (REQUIRE msg loc b)
  with st stack_invariant_REQUIRE [OF inv, of msg loc b] show ?thesis by auto
next
  case (CHECK msg loc b)
  with st stack_invariant_CHECK [OF inv, of msg loc b] show ?thesis by auto
next
  case Call_GenerateReport
  with st inv show ?thesis by (simp add: step_GenerateReport del: step.simps)
next
  case (Call_SetNewOptions newOptions)
  with st stack_invariant_options [OF inv] show ?thesis by auto
next
  case Call_Reset
  with st stack_invariant_Reset show ?thesis by auto
qed

lemma stack_invariant_run:
  "stack_invariant s \<Longrightarrow> run calls s = Inr s' \<Longrightarrow> stack_invariant s'"
proof (induction calls arbitrary: s)
  case Nil
  then show ?case by simp
next
  case (Cons c calls)
  from Cons.prems obtain s1 where s1: "step c s = Inr s1" "run calls s1 = Inr s'"
    by (auto split: sum.splits)
  from Cons.IH [OF stack_invariant_step [OF Cons.prems(1) s1(1)] s1(2)] show ?case .
qed

lemma well_nested_run:
  "stack_invariant s \<Longrightarrow> length (internal_segment_stack s) = Suc d \<Longrightarrow> well_nested d calls \<Longrightarrow>
   \<exists>s'. run calls s = Inr s' \<and> stack_invariant s' \<and>
        length (internal_segment_stack s') = Suc (open_scopes d calls)"
proof (induction calls arbitrary: s d)
  case Nil
  then show ?case by simp
next
  case (Cons c calls)
  note inv = Cons.prems(1) and len = Cons.prems(2) and wn = Cons.prems(3)
  show ?case
  proof (cases c)
    case (Enter_SECTION name)
    from stack_invariant_Enter [OF inv, of name] obtain s1 where
      s1: "step c s = Inr s1" "stack_invariant s1"
          "length (internal_segment_stack s1) = Suc (Suc d)"
      using len Enter_SECTION by auto
    from wn Enter_SECTION have "well_nested (Suc d) calls" by simp
    from Cons.IH [OF s1(2,3) this] s1(1) Enter_SECTION show ?thesis by auto
  next
    case Leave_SECTION
    with wn have d: "0 < d" "well_nested (d - 1) calls" by auto
    with len have "1 < length (internal_segment_stack s)" by simp
    from stack_invariant_Leave [OF inv this] obtain s1 where
      s1: "step c s = Inr s1" "stack_invariant s1"
          "length (internal_segment_stack s1) = Suc (d - 1)"
      using len d Leave_SECTION by auto
    from Cons.IH [OF s1(2,3) d(2)] s1(1) Leave_SECTION show ?thesis by auto
  next
    case (REQUIRE msg loc b)
    from stack_invariant_REQUIRE [OF inv, of msg loc b] obtain s1 where
      s1: "step c s = Inr s1" "stack_invariant s1" "length (internal_segment_stack s1) = Suc d"
      using len REQUIRE by auto
    from wn REQUIRE have "well_nested d calls" by simp
    from Cons.IH [OF s1(2,3) this] s1(1) REQUIRE show ?thesis by auto
  next
    case (CHECK msg loc b)
    from stack_invariant_CHECK [OF inv, of msg loc b] obtain s1 where
      s1: "step c s = Inr s1" "stack_invariant s1" "length (internal_segment_stack s1) = Suc d"
      using len CHECK by auto
    from wn CHECK have "well_nested d calls" by simp
    from Cons.IH [OF s1(2,3) this] s1(1) CHECK show ?thesis by auto
  next
    case Call_GenerateReport
    from Call_GenerateReport have s1: "step c s = Inr s" by (simp only: step_GenerateReport)
    from wn Call_GenerateReport have "well_nested d calls" by simp
    from Cons.IH [OF inv len this] s1 Call_GenerateReport show ?thesis by auto
  next
    case (Call_SetNewOptions newOptions)
    have s1: "step c s = Inr (SetNewOptions newOptions s)" by (simp add: Call_SetNewOptions)
    have l1: "length (internal_segment_stack (SetNewOptions newOptions s)) = Suc d"
      using len by (simp add: SetNewOptions_def)
    from wn Call_SetNewOptions have "well_nested d calls" by simp
    from Cons.IH [OF stack_invariant_options [OF inv] l1 this] s1 Call_SetNewOptions
    show ?thesis by auto
  next
    case Call_Reset
    with wn have d: "d = 0" "well_nested 0 calls" by auto
    have s1: "step c s = Inr (Reset s)" by (simp add: Call_Reset)
    have l1: "length (internal_segment_stack (Reset s)) = Suc 0"
      by (simp add: Reset_def pop_all_empty)
    from Cons.IH [OF stack_invariant_Reset l1 d(2)] s1 Call_Reset d(1) show ?thesis by auto
  qed
qed

lemma well_nested_take: "well_nested d calls \<Longrightarrow> well_nested d (take k calls)"
proof (induction calls arbitrary: d k)
  case Nil
  then show ?case by simp
next
  case (Cons c calls)
  show ?case
  proof (cases k)
    case 0
    then show ?thesis by simp
  next
    case (Suc j)
    with Cons show ?thesis by (cases c) auto
  qed
qed

text \<open>
  C9. Take a sequence of calls in which every scope exit belongs to a scope entered before
  it and still open (\<^verbatim>\<open>Reset\<close>, if called at all, is called outside every scope). From the
  initial state every prefix of it runs through, and after it the stack is not empty, has
  the root at its bottom, has only pointers to segments of the tree in it, its top among
  them, and holds one entry per open scope above the root. The destructor pops exactly one
  entry and leaves the tree alone, and it does so only when the stack holds more than one
  entry: otherwise its assertion stops the program. Whatever the calls are, a run from the
  initial state that is not stopped ends in a state with this invariant.
\<close>

theorem scope_stack_never_empty:
  "(well_nested 0 calls \<longrightarrow>
      (\<exists>s. run (take k calls) initial_state = Inr s \<and> stack_invariant s \<and>
           (\<exists>seg. top_segment s = Inr (hd (internal_segment_stack s), seg)) \<and>
           length (internal_segment_stack s) = Suc (open_scopes 0 (take k calls)))) \<and>
   (run calls initial_state = Inr s \<longrightarrow> stack_invariant s) \<and>
   (SegmentScopeManager_destructor s = Inr s' \<longrightarrow>
      1 < length (internal_segment_stack s) \<and>
      internal_segment_stack s' = tl (internal_segment_stack s) \<and>
      internal_root s' = internal_root s) \<and>
   (\<not> 1 < length (internal_segment_stack s) \<longrightarrow>
      SegmentScopeManager_destructor s = Inl Destructor_assert_failed)"
proof -
  have 1: "well_nested 0 calls \<longrightarrow>
      (\<exists>s. run (take k calls) initial_state = Inr s \<and> stack_invariant s \<and>
           (\<exists>seg. top_segment s = Inr (hd (internal_segment_stack s), seg)) \<and>
           length (internal_segment_stack s) = Suc (open_scopes 0 (take k calls)))"
  proof
    assume "well_nested 0 calls"
    then have w: "well_nested 0 (take k calls)" by (rule well_nested_take)
    have l: "length (internal_segment_stack initial_state) = Suc 0"
      by (simp add: initial_state_def)
    from well_nested_run [OF stack_invariant_initial l w] obtain t where
      t: "run (take k calls) initial_state = Inr t" "stack_invariant t"
         "length (internal_segment_stack t) = Suc (open_scopes 0 (take k calls))" by blast
    with stack_invariant_top [OF t(2)]
    show "\<exists>s. run (take k calls) initial_state = Inr s \<and> stack_invariant s \<and>
           (\<exists>seg. top_segment s = Inr (hd (internal_segment_stack s), seg)) \<and>
           length (internal_segment_stack s) = Suc (open_scopes 0 (take k calls))"
      by blast
  qed
  have 2: "run calls initial_state = Inr s \<longrightarrow> stack_invariant s"
    using stack_invariant_run [OF stack_invariant_initial] by blast
  have 3: "SegmentScopeManager_destructor s = Inr s' \<longrightarrow>
      1 < length (internal_segment_stack s) \<and>
      internal_segment_stack s' = tl (internal_segment_stack s) \<and>
      internal_root s' = internal_root s"
    by (auto simp: SegmentScopeManager_destructor_def split: if_splits)
  have 4: "\<not> 1 < length (internal_segment_stack s) \<longrightarrow>
      SegmentScopeManager_destructor s = Inl Destructor_assert_failed"
    by (simp add: SegmentScopeManager_destructor_def)
  from 1 2 3 4 show ?thesis by blast
qed

theorem scope_stack_never_empty_witness:
  "well_nested 0
     [Enter_SECTION ''A'', REQUIRE ''2 + 2 == 4'' \<lparr>file_name = ''t.cpp'', line = 5\<rparr> True,
      Enter_SECTION ''B'', Leave_SECTION, Leave_SECTION] \<and>
   run (take 3
     [Enter_SECTION ''A'', REQUIRE ''2 + 2 == 4'' \<lparr>file_name = ''t.cpp'', line = 5\<rparr> True,
      Enter_SECTION ''B'', Leave_SECTION, Leave_SECTION]) initial_state =
     Inr \<lparr>internal_root =
            Segment []
              [SegmentNode (Segment ''A''
                 [TaskNode \<lparr>m_name = ''2 + 2 == 4'',
                             m_source = \<lparr>file_name = ''t.cpp'', line = 5\<rparr>,
                             m_outcome = Passed\<rparr>,
                  SegmentNode (Segment ''B'' [] False)] False)] False,
          internal_segment_stack = [[0, 1], [0], []],
          internal_curr_options = \<lparr>detailDepth = - 1\<rparr>\<rparr> \<and>
   stack_invariant
     \<lparr>internal_root =
            Segment []
              [SegmentNode (Segment ''A''
                 [TaskNode \<lparr>m_name = ''2 + 2 == 4'',
                             m_source = \<lparr>file_name = ''t.cpp'', line = 5\<rparr>,
                             m_outcome = Passed\<rparr>,
                  SegmentNode (Segment ''B'' [] False)] False)] False,
          internal_segment_stack = [[0, 1], [0], []],
          internal_curr_options = \<lparr>detailDepth = - 1\<rparr>\<rparr> \<and>
   SegmentScopeManager_destructor
     \<lparr>internal_root =
            Segment []
              [SegmentNode (Segment ''A''
                 [TaskNode \<lparr>m_name = ''2 + 2 == 4'',
                             m_source = \<lparr>file_name = ''t.cpp'', line = 5\<rparr>,
                             m_outcome = Passed\<rparr>,
                  SegmentNode (Segment ''B'' [] False)] False)] False,
          internal_segment_stack = [[0, 1], [0], []],
          internal_curr_options = \<lparr>detailDepth = - 1\<rparr>\<rparr> =
     Inr \<lparr>internal_root =
            Segment []
              [SegmentNode (Segment ''A''
                 [TaskNode \<lparr>m_name = ''2 + 2 == 4'',
                             m_source = \<lparr>file_name = ''t.cpp'', line = 5\<rparr>,
                             m_outcome = Passed\<rparr>,
                  SegmentNode (Segment ''B'' [] False)] False)] False,
          internal_segment_stack = [[0], []],
          internal_curr_options = \<lparr>detailDepth = - 1\<rparr>\<rparr> \<and>
   \<not> 1 < length (internal_segment_stack initial_state) \<and>
   SegmentScopeManager_destructor initial_state = Inl Destructor_assert_failed"
proof -
  let ?calls = "[Enter_SECTION ''A'',
      REQUIRE ''2 + 2 == 4'' \<lparr>file_name = ''t.cpp'', line = 5\<rparr> True,
      Enter_SECTION ''B'', Leave_SECTION, Leave_SECTION]"
  let ?root = "Segment []
              [SegmentNode (Segment ''A''
                 [TaskNode \<lparr>m_name = ''2 + 2 == 4'',
                             m_source = \<lparr>file_name = ''t.cpp'', line = 5\<rparr>,
                             m_outcome = Passed\<rparr>,
                  SegmentNode (Segment ''B'' [] False)] False)] False"
  let ?s = "\<lparr>internal_root = ?root, internal_segment_stack = [[0, 1], [0], []],
          internal_curr_options = \<lparr>detailDepth = - 1\<rparr>\<rparr>"
  let ?s' = "\<lparr>internal_root = ?root, internal_segment_stack = [[0], []],
          internal_curr_options = \<lparr>detailDepth = - 1\<rparr>\<rparr>"
  have w: "well_nested 0 ?calls" by simp
  have t: "take 3 ?calls = [Enter_SECTION ''A'',
      REQUIRE ''2 + 2 == 4'' \<lparr>file_name = ''t.cpp'', line = 5\<rparr> True, Enter_SECTION ''B'']"
    by (simp add: numeral_eq_Suc)
  have r: "run (take 3 ?calls) initial_state = Inr ?s"
    unfolding t
    by (simp add: initial_state_def Build_Segment_def REQUIRE_2_def top_segment_def
        REQUIRE_2_body_def DidFail_def AddTask_def Build_Task_result_def
        Build_Task_def SegmentScopeManager_def AddSegment_def Let_def)
  have d: "SegmentScopeManager_destructor ?s = Inr ?s'"
    by (simp add: SegmentScopeManager_destructor_def)
  have n: "\<not> 1 < length (internal_segment_stack initial_state)"
    by (simp add: initial_state_def)
  from scope_stack_never_empty [of ?calls 3 ?s ?s'] w r
  have 1: "stack_invariant ?s" by auto
  from scope_stack_never_empty [of ?calls 3 initial_state ?s'] n
  have 2: "SegmentScopeManager_destructor initial_state = Inl Destructor_assert_failed" by blast
  from w r d n 1 2 show ?thesis by blast
qed

subsection \<open>Expansion of the children in the report\<close>

lemma uint16_cast: "uint (word_of_int k :: 16 word) = k mod 65536"
  by (simp add: uint_word_of_int)

lemma uint16_cast_minus_1: "uint (word_of_int (- 1) :: 16 word) = 65535"
proof -
  have "uint (word_of_int (- 1) :: 16 word) = (- 1) mod 65536" by (rule uint16_cast)
  also have "\<dots> = 65535" by simp
  finally show ?thesis .
qed

lemma child_block_nonempty: "child_block opts depth node piece \<Longrightarrow> piece \<noteq> []"
  by (auto simp: child_block_def split: Node.splits sum.splits)

lemma child_blocks_nonempty:
  "list_all2 (child_block opts depth) nodes pieces \<Longrightarrow> nodes \<noteq> [] \<Longrightarrow> concat pieces \<noteq> []"
  by (cases nodes; cases pieces) (auto dest: child_block_nonempty)

text \<open>
  C5, as stated, fails. After a failed \<^verbatim>\<open>REQUIRE\<close> in the root, the section \<open>B\<close> is
  entered failed and its assertion is recorded as not run. With \<open>detailDepth = -1\<close> the
  segment \<open>B\<close> at depth 0 is within the budget and has a child, but its outcome is \<open>None\<close>
  and the reporter prints its name alone.
\<close>

theorem Stringify_children_counterexample:
  "run [REQUIRE ''1 == 2'' \<lparr>file_name = ''t.cpp'', line = 7\<rparr> False, Enter_SECTION ''B'',
        REQUIRE ''3 == 3'' \<lparr>file_name = ''t.cpp'', line = 9\<rparr> True, Leave_SECTION]
     initial_state =
     Inr \<lparr>internal_root =
            Segment []
              [TaskNode \<lparr>m_name = ''1 == 2'', m_source = \<lparr>file_name = ''t.cpp'', line = 7\<rparr>,
                          m_outcome = Failed\<rparr>,
               SegmentNode (Segment ''B''
                 [TaskNode \<lparr>m_name = ''3 == 3'',
                             m_source = \<lparr>file_name = ''t.cpp'', line = 9\<rparr>,
                             m_outcome = None_Outcome\<rparr>] True)] True,
          internal_segment_stack = [[]],
          internal_curr_options = \<lparr>detailDepth = - 1\<rparr>\<rparr> \<and>
   Check_Segment (Segment ''B''
       [TaskNode \<lparr>m_name = ''3 == 3'', m_source = \<lparr>file_name = ''t.cpp'', line = 9\<rparr>,
                   m_outcome = None_Outcome\<rparr>] True) = Inr None_Outcome \<and>
   (0 :: int) < uint (word_of_int (detailDepth \<lparr>detailDepth = - 1\<rparr>) :: 16 word) \<and>
   Stringify_Segment \<lparr>detailDepth = - 1\<rparr>
     (Segment ''B''
       [TaskNode \<lparr>m_name = ''3 == 3'', m_source = \<lparr>file_name = ''t.cpp'', line = 9\<rparr>,
                   m_outcome = None_Outcome\<rparr>] True) 0 =
     Inr (ANSI_GRAY @ ''B'' @ ANSI_RESET)"
proof -
  have "(0 :: int) < uint (word_of_int (detailDepth \<lparr>detailDepth = - 1\<rparr>) :: 16 word)"
    using uint16_cast_minus_1 by simp
  then show ?thesis
    by (simp add: initial_state_def Build_Segment_def REQUIRE_2_def top_segment_def
        REQUIRE_2_body_def DidFail_def AddTask_def MarkFailed_def Build_Task_result_def
        Build_Task_def SegmentScopeManager_def AddSegment_def SegmentScopeManager_destructor_def
        Check_Task_def indent_def Let_def)
qed

text \<open>
  C5, amended. Take a segment at a depth at which the indentation can be built for it and
  for all that is below it: depth plus number of levels below \<open>2 ^ 30\<close>. Its children are
  rendered, in insertion order and each at \<open>depth + 1\<close>, if and only if the outcome of the
  segment is not \<open>None\<close> (not run) and either the outcome is \<open>Failed\<close> or the depth is below
  \<open>detailDepth\<close> read as an unsigned 16-bit number: \<open>-1\<close> is 65535, which every depth below
  65535 is under, and a value from 0 to 65535 is itself. A segment whose children are not
  rendered gives its own line alone. Beyond those depths the only other end of the call
  is \<^verbatim>\<open>std::length_error\<close>.
\<close>

theorem Stringify_children:
  assumes "Check_Segment seg = Inr outcome"
  shows
    "(depth + int (height seg) < 1073741824 \<and> outcome \<noteq> None_Outcome \<and>
      (depth < uint (word_of_int (detailDepth opts) :: 16 word) \<or> outcome = Failed) \<longrightarrow>
        (\<exists>pieces.
           list_all2 (child_block opts depth) (m_nodes seg) pieces \<and>
           Stringify_Segment opts seg depth =
             Inr (segment_line (m_name_Segment seg) outcome depth @ concat pieces @ ANSI_RESET))) \<and>
     (depth < 1073741824 \<and>
      \<not> (outcome \<noteq> None_Outcome \<and>
         (depth < uint (word_of_int (detailDepth opts) :: 16 word) \<or> outcome = Failed)) \<longrightarrow>
        Stringify_Segment opts seg depth =
          Inr (segment_line (m_name_Segment seg) outcome depth @ ANSI_RESET)) \<and>
     (depth + int (height seg) < 1073741824 \<and> m_nodes seg \<noteq> [] \<longrightarrow>
        (Stringify_Segment opts seg depth =
           Inr (segment_line (m_name_Segment seg) outcome depth @ ANSI_RESET)) =
        (\<not> (outcome \<noteq> None_Outcome \<and>
            (depth < uint (word_of_int (detailDepth opts) :: 16 word) \<or> outcome = Failed)))) \<and>
     (\<forall>e. Stringify_Segment opts seg depth = Inl e \<longrightarrow> e = LengthError) \<and>
     uint (word_of_int (- 1) :: 16 word) = 65535 \<and>
     (0 \<le> detailDepth opts \<and> detailDepth opts < 65536 \<longrightarrow>
        uint (word_of_int (detailDepth opts) :: 16 word) = detailDepth opts)"
proof -
  let ?expand = "outcome \<noteq> None_Outcome \<and>
      (depth < uint (word_of_int (detailDepth opts) :: 16 word) \<or> outcome = Failed)"
  let ?fits = "depth + int (height seg) < 1073741824"
  let ?line = "segment_line (m_name_Segment seg) outcome depth"
  have d: "depth + 1 < 1073741824 \<and> depth < 1073741824" if ?fits
    using that height_positive [of seg] by linarith
  have blocks: "\<exists>pieces. list_all2 (child_block opts depth) (m_nodes seg) pieces \<and>
      Stringify_loop opts (m_nodes seg) depth ?line = Inr (?line @ concat pieces)" if f: ?fits
  proof -
    have tasks: "\<forall>t. TaskNode t \<in> set (m_nodes seg) \<longrightarrow>
        (\<exists>r. Stringify_Task t (depth + 1) = Inr r)"
      using Stringify_Task_fits d [OF f] by blast
    have subs: "\<forall>sub. SegmentNode sub \<in> set (m_nodes seg) \<longrightarrow>
        (\<exists>r. Stringify_Segment opts sub (depth + 1) = Inr r)"
    proof (intro allI impI)
      fix sub assume "SegmentNode sub \<in> set (m_nodes seg)"
      from height_child [OF this] f have "depth + 1 + int (height sub) < 1073741824"
        by linarith
      from Stringify_Segment_fits [OF this]
      show "\<exists>r. Stringify_Segment opts sub (depth + 1) = Inr r" by blast
    qed
    from Stringify_loop_blocks [OF tasks subs] show ?thesis by blast
  qed
  have 1: "?fits \<and> ?expand \<longrightarrow>
        (\<exists>pieces.
           list_all2 (child_block opts depth) (m_nodes seg) pieces \<and>
           Stringify_Segment opts seg depth = Inr (?line @ concat pieces @ ANSI_RESET))"
  proof
    assume a: "?fits \<and> ?expand"
    then have f: ?fits and e: ?expand by blast+
    from blocks [OF f] obtain pieces where
      p: "list_all2 (child_block opts depth) (m_nodes seg) pieces"
         "Stringify_loop opts (m_nodes seg) depth ?line = Inr (?line @ concat pieces)" by blast
    from d [OF f] have "depth < 1073741824" by blast
    from Stringify_Segment_shape [OF assms this, of opts] e p(2)
    have "Stringify_Segment opts seg depth = Inr (?line @ concat pieces @ ANSI_RESET)"
      by (simp del: Stringify_Segment.simps)
    with p(1) show "\<exists>pieces.
           list_all2 (child_block opts depth) (m_nodes seg) pieces \<and>
           Stringify_Segment opts seg depth = Inr (?line @ concat pieces @ ANSI_RESET)"
      by blast
  qed
  have 2: "depth < 1073741824 \<and> \<not> ?expand \<longrightarrow>
      Stringify_Segment opts seg depth = Inr (?line @ ANSI_RESET)"
  proof
    assume a: "depth < 1073741824 \<and> \<not> ?expand"
    then have "depth < 1073741824" by blast
    from Stringify_Segment_shape [OF assms this, of opts] a
    show "Stringify_Segment opts seg depth = Inr (?line @ ANSI_RESET)"
      by (auto simp del: Stringify_Segment.simps)
  qed
  have 3: "?fits \<and> m_nodes seg \<noteq> [] \<longrightarrow>
        (Stringify_Segment opts seg depth = Inr (?line @ ANSI_RESET)) = (\<not> ?expand)"
  proof
    assume a: "?fits \<and> m_nodes seg \<noteq> []"
    then have f: ?fits and ne: "m_nodes seg \<noteq> []" by blast+
    show "(Stringify_Segment opts seg depth = Inr (?line @ ANSI_RESET)) = (\<not> ?expand)"
    proof (cases ?expand)
      case True
      with 1 f obtain pieces where
        p: "list_all2 (child_block opts depth) (m_nodes seg) pieces"
           "Stringify_Segment opts seg depth = Inr (?line @ concat pieces @ ANSI_RESET)"
        by blast
      from child_blocks_nonempty [OF p(1) ne] have "concat pieces \<noteq> []" .
      with p(2) have "Stringify_Segment opts seg depth \<noteq> Inr (?line @ ANSI_RESET)"
        by simp
      with True show ?thesis by blast
    next
      case False
      with 2 d [OF f] show ?thesis by blast
    qed
  qed
  have 4: "\<forall>e. Stringify_Segment opts seg depth = Inl e \<longrightarrow> e = LengthError"
    using Stringify_Segment_error by blast
  have 5: "uint (word_of_int (- 1) :: 16 word) = 65535" by (rule uint16_cast_minus_1)
  have 6: "0 \<le> detailDepth opts \<and> detailDepth opts < 65536 \<longrightarrow>
        uint (word_of_int (detailDepth opts) :: 16 word) = detailDepth opts"
    by (simp add: uint16_cast)
  show ?thesis by (intro conjI) (rule 1 2 3 4 5 6)+
qed

theorem Stringify_children_witness:
  "Check_Segment (Segment ''P''
      [TaskNode (Build_Task_result ''2 + 2 == 4'' \<lparr>file_name = ''t.cpp'', line = 5\<rparr> True)]
      False) = Inr Passed \<and>
   (0 :: int) < 1073741824 \<and>
   \<not> (0 :: int) < uint (word_of_int (detailDepth \<lparr>detailDepth = 0\<rparr>) :: 16 word) \<and>
   Stringify_Segment \<lparr>detailDepth = 0\<rparr>
     (Segment ''P''
       [TaskNode (Build_Task_result ''2 + 2 == 4'' \<lparr>file_name = ''t.cpp'', line = 5\<rparr> True)]
       False) 0 =
     Inr (''P:'' @ ANSI_ITALIC @ ANSI_DARK_GREEN @ '' [all tests passed]'' @ ANSI_RESET @
          ANSI_RESET) \<and>
   Check_Segment (Segment ''F''
      [TaskNode (Build_Task_result ''1 == 2'' \<lparr>file_name = ''t.cpp'', line = 7\<rparr> False)]
      True) = Inr Failed \<and>
   0 + int (height (Segment ''F''
      [TaskNode (Build_Task_result ''1 == 2'' \<lparr>file_name = ''t.cpp'', line = 7\<rparr> False)]
      True)) < 1073741824 \<and>
   Stringify_Segment \<lparr>detailDepth = 0\<rparr>
     (Segment ''F''
       [TaskNode (Build_Task_result ''1 == 2'' \<lparr>file_name = ''t.cpp'', line = 7\<rparr> False)]
       True) 0 \<noteq>
     Inr (segment_line ''F'' Failed 0 @ ANSI_RESET)"
proof -
  let ?P = "Segment ''P''
      [TaskNode (Build_Task_result ''2 + 2 == 4'' \<lparr>file_name = ''t.cpp'', line = 5\<rparr> True)]
      False"
  let ?F = "Segment ''F''
      [TaskNode (Build_Task_result ''1 == 2'' \<lparr>file_name = ''t.cpp'', line = 7\<rparr> False)]
      True"
  have cp: "Check_Segment ?P = Inr Passed"
    by (simp add: Check_Task_def Build_Task_result_def Build_Task_def)
  have cf: "Check_Segment ?F = Inr Failed"
    by (simp add: Check_Task_def Build_Task_result_def Build_Task_def)
  have b: "\<not> (0 :: int) < uint (word_of_int (detailDepth \<lparr>detailDepth = 0\<rparr>) :: 16 word)"
    by simp
  have h: "0 + int (height ?F) < 1073741824" by simp
  from Stringify_children [OF cp, of 0 "\<lparr>detailDepth = 0\<rparr>"] b
  have "Stringify_Segment \<lparr>detailDepth = 0\<rparr> ?P 0 =
          Inr (segment_line (m_name_Segment ?P) Passed 0 @ ANSI_RESET)"
    by simp
  then have 1: "Stringify_Segment \<lparr>detailDepth = 0\<rparr> ?P 0 =
     Inr (''P:'' @ ANSI_ITALIC @ ANSI_DARK_GREEN @ '' [all tests passed]'' @ ANSI_RESET @
          ANSI_RESET)"
    by (simp add: segment_line_def del: Stringify_Segment.simps)
  have ne: "m_nodes ?F \<noteq> []" by simp
  from Stringify_children [OF cf, of 0 "\<lparr>detailDepth = 0\<rparr>"] ne h
  have 2: "Stringify_Segment \<lparr>detailDepth = 0\<rparr> ?F 0 \<noteq>
     Inr (segment_line ''F'' Failed 0 @ ANSI_RESET)"
    by (simp del: Stringify_Segment.simps)
  from cp cf b h 1 2 show ?thesis by simp
qed

end
